theory Spec2Isabelle
  imports Complex_Main "HOL-Library.Monad_Syntax"
begin

section \<open>Data model\<close>

text \<open>
  The rules engine of the program is the library chess.js. Its piece symbols
  \<^verbatim>\<open>'p' 'n' 'b' 'r' 'q' 'k'\<close> and colours \<^verbatim>\<open>'w' 'b'\<close> are closed sets of
  one-letter strings; they are modelled as datatypes.
\<close>

datatype PieceSymbol = Pawn | Knight | Bishop | Rook | Queen | King

datatype Color = White | Black

text \<open>A square of the board view is addressed by its row and column index.\<close>

type_synonym square = "int \<times> int"

text \<open>
  A verbose move object of the rules engine. The searcher reads \<^verbatim>\<open>captured\<close>,
  \<^verbatim>\<open>piece\<close>, \<^verbatim>\<open>promotion\<close>, \<^verbatim>\<open>san\<close> and \<^verbatim>\<open>flags\<close>; an absent
  \<^verbatim>\<open>captured\<close> or \<^verbatim>\<open>promotion\<close> field is \<open>None\<close>. The field \<^verbatim>\<open>color\<close>
  of a move is named \<open>mcolor\<close>, the name \<open>color\<close> being used for the pieces of
  the board view.
\<close>

record Move =
  mcolor :: Color
  from_sq :: square
  to_sq :: square
  piece :: PieceSymbol
  captured :: "PieceSymbol option"
  promotion :: "PieceSymbol option"
  flags :: string
  san :: string

section \<open>Move ordering\<close>

fun PIECE_VALUES :: "PieceSymbol \<Rightarrow> int" where
  "PIECE_VALUES Pawn = 100"
| "PIECE_VALUES Knight = 320"
| "PIECE_VALUES Bishop = 330"
| "PIECE_VALUES Rook = 500"
| "PIECE_VALUES Queen = 900"
| "PIECE_VALUES King = 20000"

text \<open>\<^verbatim>\<open>s.includes(c)\<close> for a one-character string \<^verbatim>\<open>c\<close>.\<close>

definition str_includes :: "string \<Rightarrow> char \<Rightarrow> bool" where
  "str_includes s c = (c \<in> set s)"

text \<open>
  \<^verbatim>\<open>getMoveScore\<close>: the running \<^verbatim>\<open>score\<close> is threaded through the four
  \<^verbatim>\<open>if\<close> statements in the order of the source.
\<close>

definition getMoveScore :: "Move \<Rightarrow> int" where
  "getMoveScore move =
    (let score = 0;
         score = (case captured move of
                    Some victim \<Rightarrow>
                      (let victimValue = PIECE_VALUES victim;
                           aggressorValue = PIECE_VALUES (piece move)
                       in score + 10000 + (victimValue * 10) - aggressorValue)
                  | None \<Rightarrow> score);
         score = (case promotion move of
                    Some pr \<Rightarrow> (if pr = Queen then score + 9000 else score + 4000)
                  | None \<Rightarrow> score);
         score = (if str_includes (san move) (CHR ''+'') \<or> str_includes (san move) (CHR ''#'')
                  then score + 2000 else score);
         score = (if str_includes (flags move) (CHR ''k'') \<or> str_includes (flags move) (CHR ''q'')
                  then score + 500 else score)
     in score)"

section \<open>Evaluator\<close>

text \<open>
  The numbers of the evaluator are integers far below \<open>2^53\<close>, where the arithmetic
  of the source is exact; they are modelled as \<open>int\<close>.
\<close>

text \<open>
  One cell of the board view: \<^verbatim>\<open>null\<close> is \<open>None\<close>, a piece object is \<open>Some\<close>.
  The source reads the fields \<^verbatim>\<open>type\<close> and \<^verbatim>\<open>color\<close> of a piece. (The variable
  \<^verbatim>\<open>piece\<close> of the source is \<open>pc\<close> below, \<open>piece\<close> being a field of the moves.)
\<close>

record Piece =
  type :: PieceSymbol
  color :: Color

type_synonym board = "Piece option list list"

definition BISHOP_PAIR_BONUS :: int where "BISHOP_PAIR_BONUS = 50"
definition ROOK_OPEN_FILE_BONUS :: int where "ROOK_OPEN_FILE_BONUS = 25"
definition ROOK_SEMI_OPEN_FILE_BONUS :: int where "ROOK_SEMI_OPEN_FILE_BONUS = 10"
definition KING_SHIELD_BONUS :: int where "KING_SHIELD_BONUS = 20"
definition KING_OPEN_FILE_PENALTY :: int where "KING_OPEN_FILE_PENALTY = 25"
definition MOBILITY_WEIGHT :: int where "MOBILITY_WEIGHT = 5"

definition PAWN_PST :: "int list" where
  "PAWN_PST =
    [0, 0, 0, 0, 0, 0, 0, 0,
     50, 50, 50, 50, 50, 50, 50, 50,
     10, 10, 20, 30, 30, 20, 10, 10,
     5, 5, 10, 25, 25, 10, 5, 5,
     0, 0, 0, 20, 20, 0, 0, 0,
     5, -5, -10, 0, 0, -10, -5, 5,
     5, 10, 10, -20, -20, 10, 10, 5,
     0, 0, 0, 0, 0, 0, 0, 0]"

definition KNIGHT_PST :: "int list" where
  "KNIGHT_PST =
    [-50, -40, -30, -30, -30, -30, -40, -50,
     -40, -20, 0, 0, 0, 0, -20, -40,
     -30, 0, 10, 15, 15, 10, 0, -30,
     -30, 5, 15, 20, 20, 15, 5, -30,
     -30, 0, 15, 20, 20, 15, 0, -30,
     -30, 5, 10, 15, 15, 10, 5, -30,
     -40, -20, 0, 5, 5, 0, -20, -40,
     -50, -40, -30, -30, -30, -30, -40, -50]"

definition BISHOP_PST :: "int list" where
  "BISHOP_PST =
    [-20, -10, -10, -10, -10, -10, -10, -20,
     -10, 0, 0, 0, 0, 0, 0, -10,
     -10, 0, 5, 10, 10, 5, 0, -10,
     -10, 5, 5, 10, 10, 5, 5, -10,
     -10, 0, 10, 10, 10, 10, 0, -10,
     -10, 10, 10, 10, 10, 10, 10, -10,
     -10, 5, 0, 0, 0, 0, 5, -10,
     -20, -10, -10, -10, -10, -10, -10, -20]"

definition ROOK_PST :: "int list" where
  "ROOK_PST =
    [0, 0, 0, 0, 0, 0, 0, 0,
     5, 10, 10, 10, 10, 10, 10, 5,
     -5, 0, 0, 0, 0, 0, 0, -5,
     -5, 0, 0, 0, 0, 0, 0, -5,
     -5, 0, 0, 0, 0, 0, 0, -5,
     -5, 0, 0, 0, 0, 0, 0, -5,
     -5, 0, 0, 0, 0, 0, 0, -5,
     0, 0, 0, 5, 5, 0, 0, 0]"

definition QUEEN_PST :: "int list" where
  "QUEEN_PST =
    [-20, -10, -10, -5, -5, -10, -10, -20,
     -10, 0, 0, 0, 0, 0, 0, -10,
     -10, 0, 5, 5, 5, 5, 0, -10,
     -5, 0, 5, 5, 5, 5, 0, -5,
     0, 0, 5, 5, 5, 5, 0, -5,
     -10, 5, 5, 5, 5, 5, 0, -10,
     -10, 0, 5, 0, 0, 0, 0, -10,
     -20, -10, -10, -5, -5, -10, -10, -20]"

definition KING_PST :: "int list" where
  "KING_PST =
    [-30, -40, -40, -50, -50, -40, -40, -30,
     -30, -40, -40, -50, -50, -40, -40, -30,
     -30, -40, -40, -50, -50, -40, -40, -30,
     -30, -40, -40, -50, -50, -40, -40, -30,
     -20, -30, -30, -40, -40, -30, -30, -20,
     -10, -20, -20, -20, -20, -20, -20, -10,
     20, 20, 0, 0, 0, 0, 20, 20,
     20, 30, 10, 0, 0, 10, 30, 20]"

fun PSTS :: "PieceSymbol \<Rightarrow> int list" where
  "PSTS Pawn = PAWN_PST"
| "PSTS Knight = KNIGHT_PST"
| "PSTS Bishop = BISHOP_PST"
| "PSTS Rook = ROOK_PST"
| "PSTS Queen = QUEEN_PST"
| "PSTS King = KING_PST"

text \<open>
  The read \<^verbatim>\<open>board[r][c]\<close>. The result \<open>None\<close> stands for a read outside the
  array: with a row index out of range the source raises a TypeError (it indexes
  \<^verbatim>\<open>undefined\<close>), with a column index out of range it reads \<^verbatim>\<open>undefined\<close>.
  The model treats both as a failure, so that a result \<open>Some v\<close> of the evaluator
  says that no such read happened.
\<close>

definition cell :: "board \<Rightarrow> int \<Rightarrow> int \<Rightarrow> Piece option option" where
  "cell board r c =
    (if 0 \<le> r \<and> r < int (length board) \<and> 0 \<le> c \<and> c < int (length (board ! nat r))
     then Some (board ! nat r ! nat c) else None)"

definition isValidSquare :: "int \<Rightarrow> int \<Rightarrow> bool" where
  "isValidSquare r c = (r \<ge> 0 \<and> r < 8 \<and> c \<ge> 0 \<and> c < 8)"

definition knightDirs :: "(int \<times> int) list" where
  "knightDirs = [(2,1), (2,-1), (-2,1), (-2,-1), (1,2), (1,-2), (-1,2), (-1,-2)]"

definition rookDirs :: "(int \<times> int) list" where
  "rookDirs = [(1,0), (-1,0), (0,1), (0,-1)]"

definition bishopDirs :: "(int \<times> int) list" where
  "bishopDirs = [(1,1), (1,-1), (-1,1), (-1,-1)]"

text \<open>
  The \<^verbatim>\<open>while (isValidSquare(nr, nc))\<close> loop of \<^verbatim>\<open>getPieceMobility\<close> for one
  direction vector, with the counter \<^verbatim>\<open>moves\<close> as accumulator. The loop has no
  bound of its own (a zero vector would never leave the board), hence a partial
  function: \<open>None\<close> is a failed read or a loop that does not return.
\<close>

partial_function (option) slide ::
  "board \<Rightarrow> Color \<Rightarrow> int \<Rightarrow> int \<Rightarrow> int \<Rightarrow> int \<Rightarrow> int \<Rightarrow> int option" where
  "slide board col dr dc nr nc moves =
    (if isValidSquare nr nc then
       do {
         target \<leftarrow> cell board nr nc;
         case target of
           None \<Rightarrow> slide board col dr dc (nr + dr) (nc + dc) (moves + 1)
         | Some t \<Rightarrow> Some (if color t \<noteq> col then moves + 1 else moves)
       }
     else Some moves)"

declare slide.simps [code]

text \<open>The \<^verbatim>\<open>for (const [dr, dc] of dirs)\<close> loop of \<^verbatim>\<open>getPieceMobility\<close>.\<close>

fun dirs_loop ::
  "board \<Rightarrow> int \<Rightarrow> int \<Rightarrow> Color \<Rightarrow> bool \<Rightarrow> (int \<times> int) list \<Rightarrow> int \<Rightarrow> int option" where
  "dirs_loop board r c col isSliding [] moves = Some moves"
| "dirs_loop board r c col isSliding ((dr, dc) # dirs) moves =
    (let nr = r + dr; nc = c + dc in
     if \<not> isSliding then
       (if isValidSquare nr nc then
          do {
            target \<leftarrow> cell board nr nc;
            dirs_loop board r c col isSliding dirs
              (case target of
                 None \<Rightarrow> moves + 1
               | Some t \<Rightarrow> if color t \<noteq> col then moves + 1 else moves)
          }
        else dirs_loop board r c col isSliding dirs moves)
     else
       do {
         moves' \<leftarrow> slide board col dr dc nr nc moves;
         dirs_loop board r c col isSliding dirs moves'
       })"

definition getPieceMobility ::
  "board \<Rightarrow> int \<Rightarrow> int \<Rightarrow> PieceSymbol \<Rightarrow> Color \<Rightarrow> int option" where
  "getPieceMobility board r c ty col =
    (if ty = Knight then dirs_loop board r c col (ty \<noteq> Knight) knightDirs 0
     else if ty = Rook then dirs_loop board r c col (ty \<noteq> Knight) rookDirs 0
     else if ty = Bishop then dirs_loop board r c col (ty \<noteq> Knight) bishopDirs 0
     else if ty = Queen then dirs_loop board r c col (ty \<noteq> Knight) (rookDirs @ bishopDirs) 0
     else Some 0)"

text \<open>The \<^verbatim>\<open>for (let f = c - 1; f <= c + 1; f++)\<close> loop of \<^verbatim>\<open>evaluateKingSafety\<close>.\<close>

fun shield_loop :: "board \<Rightarrow> int \<Rightarrow> bool \<Rightarrow> int list \<Rightarrow> int \<Rightarrow> int option" where
  "shield_loop board shieldRank isWhite [] score = Some score"
| "shield_loop board shieldRank isWhite (f # fs) score =
    (if f \<ge> 0 \<and> f < 8 then
       (if isValidSquare shieldRank f then
          do {
            pc \<leftarrow> cell board shieldRank f;
            shield_loop board shieldRank isWhite fs
              (case pc of
                 Some p \<Rightarrow>
                   if type p = Pawn \<and> color p = (if isWhite then White else Black)
                   then score + KING_SHIELD_BONUS else score
               | None \<Rightarrow> score - KING_OPEN_FILE_PENALTY)
          }
        else shield_loop board shieldRank isWhite fs score)
     else shield_loop board shieldRank isWhite fs score)"

definition evaluateKingSafety :: "board \<Rightarrow> int \<Rightarrow> int \<Rightarrow> bool \<Rightarrow> int option" where
  "evaluateKingSafety board r c isWhite =
    (let score = 0;
         isBackRank = (if isWhite then r = 7 else r = 0)
     in if isBackRank then
          (let shieldRank = (if isWhite then r - 1 else r + 1)
           in shield_loop board shieldRank isWhite [c - 1 .. c + 1] score)
        else Some score)"

text \<open>The trackers of \<^verbatim>\<open>evaluateBoard\<close>, with the running total.\<close>

record trackers =
  totalEvaluation :: int
  whiteKingPos :: "int \<times> int"
  blackKingPos :: "int \<times> int"
  whiteBishopCount :: int
  blackBishopCount :: int
  whitePawnsPerFile :: "int list"
  blackPawnsPerFile :: "int list"

definition init_trackers :: trackers where
  "init_trackers =
    \<lparr>totalEvaluation = 0, whiteKingPos = (-1, -1), blackKingPos = (-1, -1),
     whiteBishopCount = 0, blackBishopCount = 0,
     whitePawnsPerFile = replicate 8 0, blackPawnsPerFile = replicate 8 0\<rparr>"

text \<open>The feature gathering at the end of the body of the first pass.\<close>

definition gather :: "Piece \<Rightarrow> int \<Rightarrow> int \<Rightarrow> trackers \<Rightarrow> trackers" where
  "gather pc r c t =
    (let isWhite = (color pc = White) in
     if type pc = King then
       (if isWhite then t\<lparr>whiteKingPos := (r, c)\<rparr> else t\<lparr>blackKingPos := (r, c)\<rparr>)
     else if type pc = Bishop then
       (if isWhite then t\<lparr>whiteBishopCount := whiteBishopCount t + 1\<rparr>
        else t\<lparr>blackBishopCount := blackBishopCount t + 1\<rparr>)
     else if type pc = Pawn then
       (if isWhite
        then t\<lparr>whitePawnsPerFile :=
                 (whitePawnsPerFile t)[nat c := whitePawnsPerFile t ! nat c + 1]\<rparr>
        else t\<lparr>blackPawnsPerFile :=
                 (blackPawnsPerFile t)[nat c := blackPawnsPerFile t ! nat c + 1]\<rparr>)
     else t)"

text \<open>The body of the first pass for the square \<open>(r, c)\<close>.\<close>

definition first_pass_square :: "board \<Rightarrow> int \<Rightarrow> int \<Rightarrow> trackers \<Rightarrow> trackers option" where
  "first_pass_square board r c t =
    do {
      sq \<leftarrow> cell board r c;
      case sq of
        None \<Rightarrow> Some t
      | Some pc \<Rightarrow>
          (let isWhite = (color pc = White);
               sign = (if isWhite then 1 else -1);
               squareIndex = r * 8 + c;
               tot = totalEvaluation t + PIECE_VALUES (type pc) * sign;
               pstVal = (if isWhite then PSTS (type pc) ! nat squareIndex
                         else PSTS (type pc) ! nat (63 - squareIndex));
               tot = tot + pstVal * sign
           in do {
             tot \<leftarrow>
               (if type pc \<noteq> Pawn \<and> type pc \<noteq> King then
                  do {
                    mobility \<leftarrow> getPieceMobility board r c (type pc) (color pc);
                    Some (tot + mobility * MOBILITY_WEIGHT * sign)
                  }
                else Some tot);
             Some (gather pc r c (t\<lparr>totalEvaluation := tot\<rparr>))
           })
    }"

fun first_pass_cols :: "board \<Rightarrow> int \<Rightarrow> int list \<Rightarrow> trackers \<Rightarrow> trackers option" where
  "first_pass_cols board r [] t = Some t"
| "first_pass_cols board r (c # cs) t =
    do { t' \<leftarrow> first_pass_square board r c t; first_pass_cols board r cs t' }"

fun first_pass :: "board \<Rightarrow> int list \<Rightarrow> trackers \<Rightarrow> trackers option" where
  "first_pass board [] t = Some t"
| "first_pass board (r # rs) t =
    do { t' \<leftarrow> first_pass_cols board r [0 .. 7] t; first_pass board rs t' }"

text \<open>The body of the second pass (rooks on open files) for the square \<open>(r, c)\<close>.\<close>

definition second_pass_square :: "board \<Rightarrow> trackers \<Rightarrow> int \<Rightarrow> int \<Rightarrow> int \<Rightarrow> int option" where
  "second_pass_square board t r c tot =
    do {
      sq \<leftarrow> cell board r c;
      case sq of
        None \<Rightarrow> Some tot
      | Some pc \<Rightarrow>
          if type pc = Rook then
            (let isWhite = (color pc = White);
                 myPawns = (if isWhite then whitePawnsPerFile t ! nat c
                            else blackPawnsPerFile t ! nat c);
                 oppPawns = (if isWhite then blackPawnsPerFile t ! nat c
                             else whitePawnsPerFile t ! nat c)
             in if myPawns = 0 then
                  (let bonus = (if oppPawns = 0 then ROOK_OPEN_FILE_BONUS
                                else ROOK_SEMI_OPEN_FILE_BONUS)
                   in Some (tot + (if isWhite then bonus else - bonus)))
                else Some tot)
          else Some tot
    }"

fun second_pass_cols :: "board \<Rightarrow> trackers \<Rightarrow> int \<Rightarrow> int list \<Rightarrow> int \<Rightarrow> int option" where
  "second_pass_cols board t r [] tot = Some tot"
| "second_pass_cols board t r (c # cs) tot =
    do { tot' \<leftarrow> second_pass_square board t r c tot;
         second_pass_cols board t r cs tot' }"

fun second_pass :: "board \<Rightarrow> trackers \<Rightarrow> int list \<Rightarrow> int \<Rightarrow> int option" where
  "second_pass board t [] tot = Some tot"
| "second_pass board t (r # rs) tot =
    do { tot' \<leftarrow> second_pass_cols board t r [0 .. 7] tot;
         second_pass board t rs tot' }"

text \<open>
  \<^verbatim>\<open>evaluateBoard\<close>, as a function of the board view \<^verbatim>\<open>game.board()\<close>. The two
  king-safety terms are named, since the statements below are about them.
\<close>

definition whiteKingSafety :: "board \<Rightarrow> trackers \<Rightarrow> int option" where
  "whiteKingSafety board t =
    (if fst (whiteKingPos t) \<noteq> -1
     then evaluateKingSafety board (fst (whiteKingPos t)) (snd (whiteKingPos t)) True
     else Some 0)"

definition blackKingSafety :: "board \<Rightarrow> trackers \<Rightarrow> int option" where
  "blackKingSafety board t =
    (if fst (blackKingPos t) \<noteq> -1
     then evaluateKingSafety board (fst (blackKingPos t)) (snd (blackKingPos t)) False
     else Some 0)"

definition evaluateBoard :: "board \<Rightarrow> int option" where
  "evaluateBoard board =
    do {
      t \<leftarrow> first_pass board [0 .. 7] init_trackers;
      tot \<leftarrow> second_pass board t [0 .. 7] (totalEvaluation t);
      tot \<leftarrow> Some (if whiteBishopCount t \<ge> 2 then tot + BISHOP_PAIR_BONUS else tot);
      tot \<leftarrow> Some (if blackBishopCount t \<ge> 2 then tot - BISHOP_PAIR_BONUS else tot);
      wk \<leftarrow> whiteKingSafety board t;
      tot \<leftarrow> Some (tot + wk);
      bk \<leftarrow> blackKingSafety board t;
      tot \<leftarrow> Some (tot - bk);
      Some tot
    }"


section \<open>Searcher\<close>

text \<open>
  The numbers of the search: the evaluator returns integers, and the search starts
  from \<^verbatim>\<open>-Infinity\<close> and \<^verbatim>\<open>Infinity\<close>. They are compared with \<^verbatim>\<open>>\<close>,
  \<^verbatim>\<open><\<close>, \<^verbatim>\<open><=\<close>, \<^verbatim>\<open>Math.max\<close> and \<^verbatim>\<open>Math.min\<close> only.
\<close>

datatype score = NegInf | Fin int | PosInf

instantiation score :: linorder
begin

fun less_eq_score :: "score \<Rightarrow> score \<Rightarrow> bool" where
  "less_eq_score NegInf y = True"
| "less_eq_score (Fin a) NegInf = False"
| "less_eq_score (Fin a) (Fin b) = (a \<le> b)"
| "less_eq_score (Fin a) PosInf = True"
| "less_eq_score PosInf PosInf = True"
| "less_eq_score PosInf y = False"

definition less_score :: "score \<Rightarrow> score \<Rightarrow> bool" where
  "less_score x y = (x \<le> y \<and> \<not> y \<le> x)"

instance
proof
  fix x y z :: score
  show "(x < y) = (x \<le> y \<and> \<not> y \<le> x)" by (simp add: less_score_def)
  show "x \<le> x" by (cases x) simp_all
  show "x \<le> y \<Longrightarrow> y \<le> z \<Longrightarrow> x \<le> z"
    by (cases x; cases y; cases z) simp_all
  show "x \<le> y \<Longrightarrow> y \<le> x \<Longrightarrow> x = y"
    by (cases x; cases y) simp_all
  show "x \<le> y \<or> y \<le> x"
    by (cases x; cases y) auto
qed

end

text \<open>
  The rules engine (the class \<^verbatim>\<open>Chess\<close> of chess.js) is a parameter of the
  searcher: a record of the six operations the source calls on the handle
  \<^verbatim>\<open>game\<close>, over a type \<open>'g\<close> of states of the handle.
  \<^item> \<open>game_moves\<close> is \<^verbatim>\<open>game.moves({ verbose: true })\<close>;
  \<^item> \<open>game_move\<close> is \<^verbatim>\<open>game.move(m)\<close>, which mutates the handle; \<open>None\<close> is the
    exception chess.js raises for a move that is not legal;
  \<^item> \<open>game_undo\<close> is \<^verbatim>\<open>game.undo()\<close>, which mutates the handle and never raises;
  \<^item> \<open>game_isGameOver\<close>, \<open>game_turn\<close> and \<open>game_board\<close> are
    \<^verbatim>\<open>game.isGameOver()\<close>, \<^verbatim>\<open>game.turn()\<close> and \<^verbatim>\<open>game.board()\<close>.
\<close>

record 'g engine =
  game_moves :: "'g \<Rightarrow> Move list"
  game_move :: "'g \<Rightarrow> Move \<Rightarrow> 'g option"
  game_undo :: "'g \<Rightarrow> 'g"
  game_isGameOver :: "'g \<Rightarrow> bool"
  game_turn :: "'g \<Rightarrow> Color"
  game_board :: "'g \<Rightarrow> board"

datatype Difficulty = Easy | Medium | Hard

record MinimaxResult =
  bestMove :: "Move option"
  bestScore :: score

text \<open>
  \<^verbatim>\<open>moves.sort((a, b) => getMoveScore(b) - getMoveScore(a))\<close>: a stable sort,
  descending in the score.
\<close>

definition sort_moves :: "Move list \<Rightarrow> Move list" where
  "sort_moves ms = sort_key (\<lambda>m. - getMoveScore m) ms"

text \<open>
  \<^verbatim>\<open>minimax\<close> with its two \<^verbatim>\<open>for\<close> loops. The state of the handle is threaded
  through every call and returned with the result; \<open>None\<close> is an exception (of
  \<^verbatim>\<open>game.move\<close> or of a read of the evaluator). The loops take the depth of the
  recursive calls, \<^verbatim>\<open>depth - 1\<close>, the remaining moves, and the local variables
  \<^verbatim>\<open>alpha\<close>, \<^verbatim>\<open>beta\<close>, \<^verbatim>\<open>maxEval\<close> or \<^verbatim>\<open>minEval\<close>, and \<^verbatim>\<open>bestMove\<close>.
\<close>

function minimax ::
    "'g engine \<Rightarrow> 'g \<Rightarrow> nat \<Rightarrow> score \<Rightarrow> score \<Rightarrow> bool \<Rightarrow> (MinimaxResult \<times> 'g) option"
  and max_loop ::
    "'g engine \<Rightarrow> 'g \<Rightarrow> nat \<Rightarrow> score \<Rightarrow> score \<Rightarrow> Move list \<Rightarrow> score \<Rightarrow> Move option
      \<Rightarrow> (MinimaxResult \<times> 'g) option"
  and min_loop ::
    "'g engine \<Rightarrow> 'g \<Rightarrow> nat \<Rightarrow> score \<Rightarrow> score \<Rightarrow> Move list \<Rightarrow> score \<Rightarrow> Move option
      \<Rightarrow> (MinimaxResult \<times> 'g) option"
where
  "minimax E game depth alpha beta isMaximizingPlayer =
    (if depth = 0 \<or> game_isGameOver E game then
       do {
         v \<leftarrow> evaluateBoard (game_board E game);
         Some (\<lparr>bestMove = None, bestScore = Fin v\<rparr>, game)
       }
     else
       (let moves = sort_moves (game_moves E game) in
        if isMaximizingPlayer
        then max_loop E game (depth - 1) alpha beta moves NegInf None
        else min_loop E game (depth - 1) alpha beta moves PosInf None))"
| "max_loop E game d alpha beta [] maxEval best =
    Some (\<lparr>bestMove = best, bestScore = maxEval\<rparr>, game)"
| "max_loop E game d alpha beta (m # ms) maxEval best =
    do {
      game1 \<leftarrow> game_move E game m;
      r \<leftarrow> minimax E game1 d alpha beta False;
      (let game2 = game_undo E (snd r);
           s = bestScore (fst r);
           best' = (if s > maxEval then Some m else best);
           maxEval' = (if s > maxEval then s else maxEval);
           alpha' = max alpha s
       in if beta \<le> alpha'
          then Some (\<lparr>bestMove = best', bestScore = maxEval'\<rparr>, game2)
          else max_loop E game2 d alpha' beta ms maxEval' best')
    }"
| "min_loop E game d alpha beta [] minEval best =
    Some (\<lparr>bestMove = best, bestScore = minEval\<rparr>, game)"
| "min_loop E game d alpha beta (m # ms) minEval best =
    do {
      game1 \<leftarrow> game_move E game m;
      r \<leftarrow> minimax E game1 d alpha beta True;
      (let game2 = game_undo E (snd r);
           s = bestScore (fst r);
           best' = (if s < minEval then Some m else best);
           minEval' = (if s < minEval then s else minEval);
           beta' = min beta s
       in if beta' \<le> alpha
          then Some (\<lparr>bestMove = best', bestScore = minEval'\<rparr>, game2)
          else min_loop E game2 d alpha beta' ms minEval' best')
    }"
  by pat_completeness auto
termination
  by (relation "measures
        [\<lambda>x. case x of
           Inl (E, game, depth, alpha, beta, mx) \<Rightarrow> 2 * depth
         | Inr (Inl (E, game, d, alpha, beta, ms, ev, best)) \<Rightarrow> 2 * d + 1
         | Inr (Inr (E, game, d, alpha, beta, ms, ev, best)) \<Rightarrow> 2 * d + 1,
         \<lambda>x. case x of
           Inl (E, game, depth, alpha, beta, mx) \<Rightarrow> 0
         | Inr (Inl (E, game, d, alpha, beta, ms, ev, best)) \<Rightarrow> length ms
         | Inr (Inr (E, game, d, alpha, beta, ms, ev, best)) \<Rightarrow> length ms]")
    auto

text \<open>
  \<^verbatim>\<open>getBestMove\<close>. The value of \<^verbatim>\<open>Math.random()\<close> is the parameter \<open>random\<close>, a
  real number (the source multiplies and floors a floating-point number of the
  interval from 0 to 1, 1 excluded). A \<^verbatim>\<open>randomIndex\<close> outside the array would
  read \<^verbatim>\<open>undefined\<close>, which is neither a move nor \<^verbatim>\<open>null\<close>: the model fails there.
  The result is the returned value, \<open>None\<close> for \<^verbatim>\<open>null\<close>, with the state of the handle.
\<close>

definition getBestMove ::
  "'g engine \<Rightarrow> real \<Rightarrow> 'g \<Rightarrow> Difficulty \<Rightarrow> (Move option \<times> 'g) option" where
  "getBestMove E random game difficulty =
    (let possibleMoves = game_moves E game in
     if length possibleMoves = 0 then Some (None, game)
     else if difficulty = Easy then
       (let randomIndex = \<lfloor>random * real (length possibleMoves)\<rfloor>
        in if 0 \<le> randomIndex \<and> randomIndex < int (length possibleMoves)
           then Some (Some (possibleMoves ! nat randomIndex), game)
           else None)
     else
       (let depth = (if difficulty = Medium then 2 else 3);
            isMaximizingPlayer = (game_turn E game = White)
        in do {
          r \<leftarrow> minimax E game depth NegInf PosInf isMaximizingPlayer;
          Some (case bestMove (fst r) of
                  Some m \<Rightarrow> Some m
                | None \<Rightarrow> Some (possibleMoves ! 0),
                snd r)
        }))"

section \<open>Notions of the specification\<close>

text \<open>
  The definitions of this section are not translations of source functions: they
  state, in the words of the specification, what the source functions are compared
  with, and the conditions on the board view and on the rules engine under which
  the theorems hold.
\<close>

text \<open>A board view is well formed when it has eight rows of eight cells.\<close>

definition wf_board :: "board \<Rightarrow> bool" where
  "wf_board b = (length b = 8 \<and> list_all (\<lambda>row. length row = 8) b)"

definition on_board :: "int \<times> int \<Rightarrow> bool" where
  "on_board s = isValidSquare (fst s) (snd s)"

definition valid_index :: "int \<Rightarrow> bool" where
  "valid_index i = (0 \<le> i \<and> i < 8)"

text \<open>
  The board view of chess.js lists rank 8 first: row 0 holds the squares a8 to h8 and
  row 7 the squares a1 to h1. (The piece-square tables of the source are laid out the
  same way: White reads the pawn table directly, and its row 1, the seventh rank,
  holds the bonus 50 of a pawn about to promote.)
\<close>

definition rank_of_row :: "int \<Rightarrow> int" where
  "rank_of_row r = 8 - r"

subsection \<open>King safety\<close>

text \<open>
  The contribution of one shield square in file \<open>f\<close> of row \<open>row\<close>: 20 for a friendly
  pawn, -25 for an empty square, nothing for another piece or a square off the board.
\<close>

definition shield_term :: "board \<Rightarrow> int \<Rightarrow> bool \<Rightarrow> int \<Rightarrow> int" where
  "shield_term b row isWhite f =
    (if isValidSquare row f then
       (case cell b row f of
          Some (Some p) \<Rightarrow>
            if type p = Pawn \<and> color p = (if isWhite then White else Black) then 20 else 0
        | Some None \<Rightarrow> - 25
        | None \<Rightarrow> 0)
     else 0)"

text \<open>
  The king-safety term of a king on row \<open>r\<close> and column \<open>c\<close>: for a white king
  on rank 1 and for a black king on rank 8, the three shield squares one row toward
  the centre, in the files \<open>c - 1\<close> to \<open>c + 1\<close>; nothing for a king elsewhere.
\<close>

definition spec_king_safety :: "board \<Rightarrow> int \<Rightarrow> int \<Rightarrow> bool \<Rightarrow> int" where
  "spec_king_safety b r c isWhite =
    (if isWhite \<and> rank_of_row r = 1
     then (\<Sum>f \<leftarrow> [c - 1, c, c + 1]. shield_term b (r - 1) True f)
     else if \<not> isWhite \<and> rank_of_row r = 8
     then (\<Sum>f \<leftarrow> [c - 1, c, c + 1]. shield_term b (r + 1) False f)
     else 0)"

definition has_king :: "board \<Rightarrow> Color \<Rightarrow> bool" where
  "has_king b col =
    list_ex (list_ex (\<lambda>sq. case sq of Some p \<Rightarrow> type p = King \<and> color p = col
                                | None \<Rightarrow> False)) b"

text \<open>The squares of the board, row by row, and those that hold the king of a colour.\<close>

definition all_squares :: "square list" where
  "all_squares = concat (map (\<lambda>r. map (\<lambda>c. (r, c)) [0 .. 7]) [0 .. 7])"

definition king_squares :: "board \<Rightarrow> Color \<Rightarrow> square list" where
  "king_squares b col =
    filter (\<lambda>s. cell b (fst s) (snd s) = Some (Some \<lparr>type = King, color = col\<rparr>)) all_squares"

text \<open>What the first pass keeps of the trackers when a colour has no king.\<close>

definition no_king_inv :: "board \<Rightarrow> trackers \<Rightarrow> bool" where
  "no_king_inv b t =
    ((\<not> has_king b White \<longrightarrow> whiteKingPos t = (- 1, - 1)) \<and>
     (\<not> has_king b Black \<longrightarrow> blackKingPos t = (- 1, - 1)) \<and>
     length (whitePawnsPerFile t) = 8 \<and> length (blackPawnsPerFile t) = 8)"

subsection \<open>Mobility\<close>

definition is_empty_sq :: "board \<Rightarrow> int \<times> int \<Rightarrow> bool" where
  "is_empty_sq b s = (cell b (fst s) (snd s) = Some None)"

definition holds_enemy :: "board \<Rightarrow> Color \<Rightarrow> int \<times> int \<Rightarrow> bool" where
  "holds_enemy b col s =
    (case cell b (fst s) (snd s) of Some (Some t) \<Rightarrow> color t \<noteq> col | _ \<Rightarrow> False)"

definition holds_friend :: "board \<Rightarrow> Color \<Rightarrow> int \<times> int \<Rightarrow> bool" where
  "holds_friend b col s =
    (case cell b (fst s) (snd s) of Some (Some t) \<Rightarrow> color t = col | _ \<Rightarrow> False)"

text \<open>The squares from \<open>(r, c)\<close> to the edge of the board along a direction vector.\<close>

definition ray :: "int \<Rightarrow> int \<Rightarrow> int \<Rightarrow> int \<Rightarrow> (int \<times> int) list" where
  "ray r c dr dc =
    takeWhile on_board (map (\<lambda>i. (r + int i * dr, c + int i * dc)) [1 ..< 8])"

text \<open>
  Along a ray: every empty square up to the first occupied one, plus one if that
  square holds an enemy piece.
\<close>

definition ray_count :: "board \<Rightarrow> Color \<Rightarrow> (int \<times> int) list \<Rightarrow> int" where
  "ray_count b col sqs =
    int (length (takeWhile (is_empty_sq b) sqs))
    + (case dropWhile (is_empty_sq b) sqs of
         [] \<Rightarrow> 0
       | s # _ \<Rightarrow> if holds_enemy b col s then 1 else 0)"

definition spec_mobility :: "board \<Rightarrow> int \<Rightarrow> int \<Rightarrow> PieceSymbol \<Rightarrow> Color \<Rightarrow> int" where
  "spec_mobility b r c ty col =
    (if ty = Knight then
       int (length (filter (\<lambda>s. on_board s \<and> \<not> holds_friend b col s)
                      (map (\<lambda>(dr, dc). (r + dr, c + dc)) knightDirs)))
     else if ty = Rook then (\<Sum>(dr, dc) \<leftarrow> rookDirs. ray_count b col (ray r c dr dc))
     else if ty = Bishop then (\<Sum>(dr, dc) \<leftarrow> bishopDirs. ray_count b col (ray r c dr dc))
     else if ty = Queen then
       (\<Sum>(dr, dc) \<leftarrow> rookDirs @ bishopDirs. ray_count b col (ray r c dr dc))
     else 0)"

definition unit_dir :: "int \<times> int \<Rightarrow> bool" where
  "unit_dir d = (d \<in> set (rookDirs @ bishopDirs))"

definition color_sign :: "Color \<Rightarrow> int" where
  "color_sign col = (if col = White then 1 else - 1)"

subsection \<open>Rules engine and exhaustive search\<close>

text \<open>
  What the searcher needs of the rules engine, on the states \<open>I\<close> the engine can be
  in: the board view is well formed, and every generated move is accepted and then
  taken back by \<open>game_undo\<close>, which restores the state.
\<close>

definition rules_ok :: "'g engine \<Rightarrow> ('g \<Rightarrow> bool) \<Rightarrow> bool" where
  "rules_ok E I =
    (\<forall>g. I g \<longrightarrow>
       wf_board (game_board E g) \<and>
       (\<forall>m \<in> set (game_moves E g).
          \<exists>g'. game_move E g m = Some g' \<and> game_undo E g' = g \<and> I g'))"

text \<open>A position without legal moves is over (checkmate or stalemate).\<close>

definition no_dead_end :: "'g engine \<Rightarrow> ('g \<Rightarrow> bool) \<Rightarrow> bool" where
  "no_dead_end E I = (\<forall>g. I g \<longrightarrow> game_moves E g = [] \<longrightarrow> game_isGameOver E g)"

text \<open>
  Exhaustive minimax without pruning, over the same move generator and evaluator:
  the value of a position at depth 0, or of a position where the game is over, is
  its evaluation; otherwise it is the greatest (for the maximizer) or the least (for
  the minimizer) of the values of all positions one legal move away.
\<close>

fun spec_minimax :: "'g engine \<Rightarrow> nat \<Rightarrow> bool \<Rightarrow> 'g \<Rightarrow> score option" where
  "spec_minimax E 0 mx g = map_option Fin (evaluateBoard (game_board E g))"
| "spec_minimax E (Suc d) mx g =
    (if game_isGameOver E g then map_option Fin (evaluateBoard (game_board E g))
     else
       do {
         vs \<leftarrow> those (map (\<lambda>m. do { g' \<leftarrow> game_move E g m; spec_minimax E d (\<not> mx) g' })
                         (game_moves E g));
         Some (if mx then fold max vs NegInf else fold min vs PosInf)
       })"

text \<open>
  The relation between the exact value \<open>v\<close> of a position and the result \<open>r\<close> of a
  search with window \<open>(a, b)\<close>: exact inside the window, a bound outside.
\<close>

definition within_window :: "score \<Rightarrow> score \<Rightarrow> score \<Rightarrow> score \<Rightarrow> bool" where
  "within_window a b v r =
    ((r \<le> a \<longrightarrow> v \<le> r) \<and> (a < r \<and> r < b \<longrightarrow> r = v) \<and> (b \<le> r \<longrightarrow> r \<le> v))"

text \<open>
  A move of a position whose application is undone and whose search returns, leaving
  the state it was given.
\<close>

definition child_returns :: "'g engine \<Rightarrow> 'g \<Rightarrow> nat \<Rightarrow> Move \<Rightarrow> bool" where
  "child_returns E g d m =
    (\<exists>g1. game_move E g m = Some g1 \<and> game_undo E g1 = g \<and>
       (\<forall>a b mx. \<exists>res. minimax E g1 d a b mx = Some (res, g1)))"

text \<open>The same, with a finite score returned.\<close>

definition child_finite :: "'g engine \<Rightarrow> 'g \<Rightarrow> nat \<Rightarrow> Move \<Rightarrow> bool" where
  "child_finite E g d m =
    (\<exists>g1. game_move E g m = Some g1 \<and> game_undo E g1 = g \<and>
       (\<forall>a b mx. \<exists>res v. minimax E g1 d a b mx = Some (res, g1) \<and> bestScore res = Fin v))"

text \<open>
  The same, with the exact value \<open>cv m\<close> of the position after the move and a
  search result related to it for every window.
\<close>

definition child_exact :: "'g engine \<Rightarrow> 'g \<Rightarrow> nat \<Rightarrow> bool \<Rightarrow> (Move \<Rightarrow> score) \<Rightarrow> Move \<Rightarrow> bool" where
  "child_exact E g d mx cv m =
    (\<exists>g1. game_move E g m = Some g1 \<and> game_undo E g1 = g \<and>
       spec_minimax E d mx g1 = Some (cv m) \<and>
       (\<forall>a b. a < b \<longrightarrow>
          (\<exists>res. minimax E g1 d a b mx = Some (res, g1) \<and>
             within_window a b (cv m) (bestScore res))))"


text \<open>
  A relation \<open>R\<close> between states that the rules engine does not tell apart: related
  states have the same legal moves in the same order, the same game-over answer, the
  same side to move and the same board, and a legal move leads from related states
  to related states.
\<close>

definition same_answers :: "'g engine \<Rightarrow> ('g \<Rightarrow> bool) \<Rightarrow> ('g \<Rightarrow> 'g \<Rightarrow> bool) \<Rightarrow> bool" where
  "same_answers E I R =
    (\<forall>g h. I g \<and> I h \<and> R g h \<longrightarrow>
       game_moves E g = game_moves E h \<and>
       game_isGameOver E g = game_isGameOver E h \<and>
       game_turn E g = game_turn E h \<and>
       game_board E g = game_board E h \<and>
       (\<forall>m \<in> set (game_moves E g). \<forall>g' h'.
          game_move E g m = Some g' \<and> game_move E h m = Some h' \<longrightarrow> R g' h'))"

text \<open>
  A move that both of two states accept and undo, with searches of the two states
  after it that return the same result for every window and side.
\<close>

definition child_same :: "'g engine \<Rightarrow> 'g \<Rightarrow> 'g \<Rightarrow> nat \<Rightarrow> Move \<Rightarrow> bool" where
  "child_same E g h d m =
    (\<exists>g1 h1. game_move E g m = Some g1 \<and> game_undo E g1 = g \<and>
       game_move E h m = Some h1 \<and> game_undo E h1 = h \<and>
       (\<forall>a b mx. \<exists>res. minimax E g1 d a b mx = Some (res, g1) \<and>
          minimax E h1 d a b mx = Some (res, h1)))"
section \<open>A rules engine for the examples\<close>

text \<open>
  The theorems about the searcher hold for every rules engine that accepts the
  moves it generates and undoes them. The examples need one such engine on real
  positions: \<open>chess\<close> below generates the legal moves of chess for positions without
  castling rights and without an en-passant square, in a fixed order (square by
  square from a8 to h1, the targets of a piece in the order of its offset table),
  and ends the game on checkmate, stalemate, insufficient material and the
  fifty-move rule. The state of a position is its board, the side to move, the
  halfmove clock (the number of half-moves since the last capture or pawn move,
  which a move by a pawn or a capture resets) and the stack of the states that the
  moves made so far have left, which undo pops. Repetition of positions is not part
  of the state: the examples search at most three plies from a position with at most
  one earlier move, too few for a position to occur three times, and in their
  positions no pawn can be captured en passant or promote within these plies.
\<close>

record position =
  pos_board :: board
  pos_turn :: Color
  pos_halfmoves :: nat
  pos_history :: "(board \<times> Color \<times> nat) list"

fun other :: "Color \<Rightarrow> Color" where
  "other White = Black"
| "other Black = White"

definition sq_get :: "board \<Rightarrow> square \<Rightarrow> Piece option" where
  "sq_get b s = (case cell b (fst s) (snd s) of Some v \<Rightarrow> v | None \<Rightarrow> None)"

definition sq_put :: "board \<Rightarrow> square \<Rightarrow> Piece option \<Rightarrow> board" where
  "sq_put b s v = b[nat (fst s) := (b ! nat (fst s))[nat (snd s) := v]]"

definition file_name :: "int \<Rightarrow> string" where
  "file_name c = [''abcdefgh'' ! nat c]"

definition rank_name :: "int \<Rightarrow> string" where
  "rank_name r = [''87654321'' ! nat r]"

definition square_name :: "square \<Rightarrow> string" where
  "square_name s = file_name (snd s) @ rank_name (fst s)"

fun piece_letter :: "PieceSymbol \<Rightarrow> string" where
  "piece_letter Pawn = ''''"
| "piece_letter Knight = ''N''"
| "piece_letter Bishop = ''B''"
| "piece_letter Rook = ''R''"
| "piece_letter Queen = ''Q''"
| "piece_letter King = ''K''"

text \<open>Offset tables, as (row, column) steps of the board view.\<close>

definition knight_offsets :: "(int \<times> int) list" where
  "knight_offsets = [(-1,-2), (-2,-1), (-2,1), (-1,2), (1,2), (2,1), (2,-1), (1,-2)]"

definition bishop_offsets :: "(int \<times> int) list" where
  "bishop_offsets = [(-1,-1), (-1,1), (1,1), (1,-1)]"

definition rook_offsets :: "(int \<times> int) list" where
  "rook_offsets = [(-1,0), (0,1), (1,0), (0,-1)]"

definition queen_offsets :: "(int \<times> int) list" where
  "queen_offsets = [(-1,-1), (-1,0), (-1,1), (0,1), (1,1), (1,0), (1,-1), (0,-1)]"

definition line :: "square \<Rightarrow> int \<times> int \<Rightarrow> square list" where
  "line s d = map (\<lambda>i. (fst s + i * fst d, snd s + i * snd d)) [1 .. 7]"

text \<open>The targets of a sliding piece along one line: the empty squares, then an enemy piece.\<close>

fun line_targets :: "board \<Rightarrow> Color \<Rightarrow> square list \<Rightarrow> square list" where
  "line_targets b col [] = []"
| "line_targets b col (s # ss) =
    (if \<not> on_board s then []
     else (case sq_get b s of
             None \<Rightarrow> s # line_targets b col ss
           | Some p \<Rightarrow> if color p \<noteq> col then [s] else []))"

definition step_targets :: "board \<Rightarrow> Color \<Rightarrow> square \<Rightarrow> (int \<times> int) list \<Rightarrow> square list" where
  "step_targets b col s offs =
    filter (\<lambda>t. on_board t \<and> (case sq_get b t of None \<Rightarrow> True | Some p \<Rightarrow> color p \<noteq> col))
      (map (\<lambda>d. (fst s + fst d, snd s + snd d)) offs)"

definition pawn_targets :: "board \<Rightarrow> Color \<Rightarrow> square \<Rightarrow> square list" where
  "pawn_targets b col s =
    (let dir = (if col = White then - 1 else 1);
         start = (if col = White then 6 else 1);
         one = (fst s + dir, snd s);
         two = (fst s + 2 * dir, snd s);
         pushes = (if on_board one \<and> sq_get b one = None
                   then one # (if fst s = start \<and> sq_get b two = None then [two] else [])
                   else []);
         caps = filter (\<lambda>t. on_board t \<and>
                            (case sq_get b t of None \<Rightarrow> False | Some p \<Rightarrow> color p \<noteq> col))
                  [(fst s + dir, snd s + dir), (fst s + dir, snd s - dir)]
     in pushes @ caps)"

definition piece_targets :: "board \<Rightarrow> Piece \<Rightarrow> square \<Rightarrow> square list" where
  "piece_targets b p s =
    (case type p of
       Pawn \<Rightarrow> pawn_targets b (color p) s
     | Knight \<Rightarrow> step_targets b (color p) s knight_offsets
     | King \<Rightarrow> step_targets b (color p) s queen_offsets
     | Bishop \<Rightarrow> concat (map (\<lambda>d. line_targets b (color p) (line s d)) bishop_offsets)
     | Rook \<Rightarrow> concat (map (\<lambda>d. line_targets b (color p) (line s d)) rook_offsets)
     | Queen \<Rightarrow> concat (map (\<lambda>d. line_targets b (color p) (line s d)) queen_offsets))"

text \<open>The move objects for one piece and one target, without the notation.\<close>

definition make_moves :: "board \<Rightarrow> Piece \<Rightarrow> square \<Rightarrow> square \<Rightarrow> Move list" where
  "make_moves b p s t =
    (let cap = map_option type (sq_get b t);
         plain = \<lparr>mcolor = color p, from_sq = s, to_sq = t, piece = type p, captured = cap,
                  promotion = None,
                  flags = (if cap = None
                           then (if type p = Pawn \<and> \<bar>fst t - fst s\<bar> = 2 then ''b'' else ''n'')
                           else ''c''),
                  san = ''''\<rparr>
     in if type p = Pawn \<and> (fst t = 0 \<or> fst t = 7)
        then map (\<lambda>pr. plain\<lparr>promotion := Some pr,
                               flags := (if cap = None then ''np'' else ''cp'')\<rparr>)
               [Knight, Bishop, Rook, Queen]
        else [plain])"

definition pseudo_moves :: "board \<Rightarrow> Color \<Rightarrow> Move list" where
  "pseudo_moves b col =
    concat (map (\<lambda>s. case sq_get b s of
                       None \<Rightarrow> []
                     | Some p \<Rightarrow>
                         if color p = col
                         then concat (map (make_moves b p s) (piece_targets b p s))
                         else [])
              all_squares)"

text \<open>The first piece on a line of squares.\<close>

fun first_piece :: "board \<Rightarrow> square list \<Rightarrow> Piece option" where
  "first_piece b [] = None"
| "first_piece b (s # ss) =
    (if \<not> on_board s then None
     else (case sq_get b s of None \<Rightarrow> first_piece b ss | Some p \<Rightarrow> Some p))"

definition holds :: "board \<Rightarrow> Color \<Rightarrow> PieceSymbol \<Rightarrow> square \<Rightarrow> bool" where
  "holds b col ty s = (on_board s \<and> sq_get b s = Some \<lparr>type = ty, color = col\<rparr>)"

text \<open>Whether a piece of colour \<open>col\<close> attacks the square \<open>s\<close>.\<close>

definition attacked :: "board \<Rightarrow> Color \<Rightarrow> square \<Rightarrow> bool" where
  "attacked b col s =
    (list_ex (\<lambda>d. holds b col Knight (fst s + fst d, snd s + snd d)) knight_offsets
     \<or> list_ex (\<lambda>d. holds b col King (fst s + fst d, snd s + snd d)) queen_offsets
     \<or> (let back = (if col = White then 1 else - 1)
         in holds b col Pawn (fst s + back, snd s - 1) \<or> holds b col Pawn (fst s + back, snd s + 1))
     \<or> list_ex (\<lambda>d. case first_piece b (line s d) of
                       None \<Rightarrow> False
                     | Some p \<Rightarrow> color p = col \<and> (type p = Rook \<or> type p = Queen))
          rook_offsets
     \<or> list_ex (\<lambda>d. case first_piece b (line s d) of
                       None \<Rightarrow> False
                     | Some p \<Rightarrow> color p = col \<and> (type p = Bishop \<or> type p = Queen))
          bishop_offsets)"

definition in_check :: "board \<Rightarrow> Color \<Rightarrow> bool" where
  "in_check b col =
    (case find (holds b col King) all_squares of
       None \<Rightarrow> False
     | Some k \<Rightarrow> attacked b (other col) k)"

definition apply_move :: "board \<Rightarrow> Move \<Rightarrow> board" where
  "apply_move b m =
    sq_put (sq_put b (from_sq m) None) (to_sq m)
      (Some \<lparr>type = (case promotion m of Some pr \<Rightarrow> pr | None \<Rightarrow> piece m),
             color = mcolor m\<rparr>)"

definition legal_unmarked :: "board \<Rightarrow> Color \<Rightarrow> Move list" where
  "legal_unmarked b col = filter (\<lambda>m. \<not> in_check (apply_move b m) col) (pseudo_moves b col)"

text \<open>
  The notation of a move: piece letter, \<^verbatim>\<open>x\<close> for a capture (after the file of
  origin for a pawn), target square, promotion piece, and \<^verbatim>\<open>+\<close> for check or
  \<^verbatim>\<open>#\<close> for mate. (The origin that chess.js adds when two like pieces reach the same
  square is left out; the searcher reads the two markers only.)
\<close>

definition move_san :: "board \<Rightarrow> Move \<Rightarrow> string" where
  "move_san b m =
    (let b' = apply_move b m;
         opp = other (mcolor m)
     in piece_letter (piece m)
        @ (if captured m \<noteq> None
           then (if piece m = Pawn then file_name (snd (from_sq m)) else '''') @ ''x''
           else '''')
        @ square_name (to_sq m)
        @ (case promotion m of Some pr \<Rightarrow> ''='' @ piece_letter pr | None \<Rightarrow> '''')
        @ (if in_check b' opp
           then (if legal_unmarked b' opp = [] then ''#'' else ''+'')
           else ''''))"

definition legal_moves :: "board \<Rightarrow> Color \<Rightarrow> Move list" where
  "legal_moves b col = map (\<lambda>m. m\<lparr>san := move_san b m\<rparr>) (legal_unmarked b col)"

text \<open>Insufficient material: two kings, with at most one minor piece, or with bishops
  that all stand on squares of one colour.\<close>

definition insufficient_material :: "board \<Rightarrow> bool" where
  "insufficient_material b =
    (let occ = filter (\<lambda>s. sq_get b s \<noteq> None) all_squares;
         n = length occ;
         bishops = filter (\<lambda>s. map_option type (sq_get b s) = Some Bishop) occ;
         knights = filter (\<lambda>s. map_option type (sq_get b s) = Some Knight) occ;
         dark = filter (\<lambda>s. (fst s + snd s) mod 2 = 1) bishops
     in n = 2
        \<or> (n = 3 \<and> (length bishops = 1 \<or> length knights = 1))
        \<or> (n = length bishops + 2 \<and> (length dark = 0 \<or> length dark = length bishops)))"

definition next_halfmoves :: "nat \<Rightarrow> Move \<Rightarrow> nat" where
  "next_halfmoves n x = (if piece x = Pawn \<or> captured x \<noteq> None then 0 else n + 1)"

definition chess_move :: "position \<Rightarrow> Move \<Rightarrow> position option" where
  "chess_move g m =
    (case find (\<lambda>x. from_sq x = from_sq m \<and> to_sq x = to_sq m \<and> promotion x = promotion m)
            (legal_moves (pos_board g) (pos_turn g)) of
       None \<Rightarrow> None
     | Some x \<Rightarrow>
         Some \<lparr>pos_board = apply_move (pos_board g) x, pos_turn = other (pos_turn g),
               pos_halfmoves = next_halfmoves (pos_halfmoves g) x,
               pos_history = (pos_board g, pos_turn g, pos_halfmoves g) # pos_history g\<rparr>)"

definition chess_undo :: "position \<Rightarrow> position" where
  "chess_undo g =
    (case pos_history g of
       [] \<Rightarrow> g
     | (b, t, n) # h \<Rightarrow>
         \<lparr>pos_board = b, pos_turn = t, pos_halfmoves = n, pos_history = h\<rparr>)"

definition chess_isGameOver :: "position \<Rightarrow> bool" where
  "chess_isGameOver g =
    (legal_moves (pos_board g) (pos_turn g) = [] \<or> 100 \<le> pos_halfmoves g
      \<or> insufficient_material (pos_board g))"

definition chess :: "position engine" where
  "chess =
    \<lparr>game_moves = (\<lambda>g. legal_moves (pos_board g) (pos_turn g)),
     game_move = chess_move,
     game_undo = chess_undo,
     game_isGameOver = chess_isGameOver,
     game_turn = pos_turn,
     game_board = pos_board\<rparr>"

text \<open>Checkmate of the side \<open>col\<close>, and the legal moves of a position that mate.\<close>

definition is_mate :: "board \<Rightarrow> Color \<Rightarrow> bool" where
  "is_mate b col = (in_check b col \<and> legal_unmarked b col = [])"

definition mating_moves :: "position \<Rightarrow> Move list" where
  "mating_moves g =
    filter (\<lambda>m. is_mate (apply_move (pos_board g) m) (other (pos_turn g)))
      (legal_moves (pos_board g) (pos_turn g))"

text \<open>Two positions that differ in the stack of earlier states at most.\<close>

definition same_position :: "position \<Rightarrow> position \<Rightarrow> bool" where
  "same_position g h =
    (pos_board g = pos_board h \<and> pos_turn g = pos_turn h \<and> pos_halfmoves g = pos_halfmoves h)"

text \<open>A position set up from a board, with no earlier moves: with the halfmove clock at
  \<open>n\<close>, and with a fresh clock.\<close>

definition start_with_clock :: "board \<Rightarrow> Color \<Rightarrow> nat \<Rightarrow> position" where
  "start_with_clock b col n =
    \<lparr>pos_board = b, pos_turn = col, pos_halfmoves = n, pos_history = []\<rparr>"

definition start_from :: "board \<Rightarrow> Color \<Rightarrow> position" where
  "start_from b col = start_with_clock b col 0"

section \<open>Example positions\<close>

text \<open>
  White: king f7, pawns g6 and h6. Black: king h8, knight h7. White to move mates
  with the pawn move to g7, and can capture the knight instead.
\<close>

definition mate_board :: board where
  "mate_board =
    [[None, None, None, None, None, None, None, Some \<lparr>type = King, color = Black\<rparr>],
     [None, None, None, None, None, Some \<lparr>type = King, color = White\<rparr>, None, Some \<lparr>type = Knight, color = Black\<rparr>],
     [None, None, None, None, None, None, Some \<lparr>type = Pawn, color = White\<rparr>, Some \<lparr>type = Pawn, color = White\<rparr>],
     [None, None, None, None, None, None, None, None],
     [None, None, None, None, None, None, None, None],
     [None, None, None, None, None, None, None, None],
     [None, None, None, None, None, None, None, None],
     [None, None, None, None, None, None, None, None]]"

definition mate_position :: position where
  "mate_position = start_from mate_board White"

definition mate_move :: Move where
  "mate_move =
    \<lparr>mcolor = White, from_sq = (2, 6), to_sq = (1, 6), piece = Pawn, captured = None,
     promotion = None, flags = ''n'', san = ''g7#''\<rparr>"

definition capture_move :: Move where
  "capture_move =
    \<lparr>mcolor = White, from_sq = (2, 6), to_sq = (1, 7), piece = Pawn, captured = Some Knight,
     promotion = None, flags = ''c'', san = ''gxh7''\<rparr>"

definition king_move :: Move where
  "king_move =
    \<lparr>mcolor = White, from_sq = (1, 5), to_sq = (0, 4), piece = King, captured = None,
     promotion = None, flags = ''n'', san = ''Ke8''\<rparr>"

text \<open>The position after the king move to e8, Black to move.\<close>

definition king_moved_position :: position where
  "king_moved_position =
    \<lparr>pos_board = apply_move mate_board king_move, pos_turn = Black, pos_halfmoves = 1,
     pos_history = [(mate_board, White, 0)]\<rparr>"

text \<open>Black's knight move to f6 in that position, with check.\<close>

definition check_move :: Move where
  "check_move =
    \<lparr>mcolor = Black, from_sq = (1, 7), to_sq = (2, 5), piece = Knight, captured = None,
     promotion = None, flags = ''n'', san = ''Nf6+''\<rparr>"

text \<open>The position after the mating move.\<close>

definition mated_position :: position where
  "mated_position =
    \<lparr>pos_board = apply_move mate_board mate_move, pos_turn = Black, pos_halfmoves = 0,
     pos_history = [(mate_board, White, 0)]\<rparr>"

text \<open>The two kings alone, on e3 and e6: a draw by insufficient material.\<close>

definition kings_board :: board where
  "kings_board =
    [[None, None, None, None, None, None, None, None],
     [None, None, None, None, None, None, None, None],
     [None, None, None, None, Some \<lparr>type = King, color = Black\<rparr>, None, None, None],
     [None, None, None, None, None, None, None, None],
     [None, None, None, None, None, None, None, None],
     [None, None, None, None, Some \<lparr>type = King, color = White\<rparr>, None, None, None],
     [None, None, None, None, None, None, None, None],
     [None, None, None, None, None, None, None, None]]"

definition kings_position :: position where
  "kings_position = start_from kings_board White"

text \<open>The two kings on their home squares e1 and e8, nothing else.\<close>

definition home_kings_board :: board where
  "home_kings_board =
    [[None, None, None, None, Some \<lparr>type = King, color = Black\<rparr>, None, None, None],
     [None, None, None, None, None, None, None, None],
     [None, None, None, None, None, None, None, None],
     [None, None, None, None, None, None, None, None],
     [None, None, None, None, None, None, None, None],
     [None, None, None, None, None, None, None, None],
     [None, None, None, None, None, None, None, None],
     [None, None, None, None, Some \<lparr>type = King, color = White\<rparr>, None, None, None]]"

text \<open>The two kings on each other's home squares: White's on e8, Black's on e1.\<close>

definition far_kings_board :: board where
  "far_kings_board =
    [[None, None, None, None, Some \<lparr>type = King, color = White\<rparr>, None, None, None],
     [None, None, None, None, None, None, None, None],
     [None, None, None, None, None, None, None, None],
     [None, None, None, None, None, None, None, None],
     [None, None, None, None, None, None, None, None],
     [None, None, None, None, None, None, None, None],
     [None, None, None, None, None, None, None, None],
     [None, None, None, None, Some \<lparr>type = King, color = Black\<rparr>, None, None, None]]"


text \<open>A white king and a white rook, and no black king.\<close>

definition lone_king_board :: board where
  "lone_king_board =
    [[None, None, None, None, None, None, None, None],
     [None, None, None, None, None, None, None, None],
     [None, None, None, None, None, None, None, None],
     [None, None, None, None, None, None, None, None],
     [None, None, None, None, None, None, None, None],
     [None, None, None, None, None, None, None, None],
     [None, None, None, None, None, None, None, None],
     [Some \<lparr>type = Rook, color = White\<rparr>, None, None, None, Some \<lparr>type = King, color = White\<rparr>, None, None, None]]"


text \<open>The first example position with the halfmove clock at 100: the same board, the
  same side to move and no earlier moves, and a draw by the fifty-move rule.\<close>

definition stale_position :: position where
  "stale_position = start_with_clock mate_board White 100"

text \<open>The first example position as it stands after Black has captured a white knight
  on h7 with a knight from g5: the same board, side to move and clock, with one
  earlier state to undo to.\<close>

definition earlier_board :: board where
  "earlier_board =
    sq_put (sq_put mate_board (1, 7) (Some \<lparr>type = Knight, color = White\<rparr>))
      (3, 6) (Some \<lparr>type = Knight, color = Black\<rparr>)"

definition replayed_position :: position where
  "replayed_position =
    \<lparr>pos_board = mate_board, pos_turn = White, pos_halfmoves = 0,
     pos_history = [(earlier_board, Black, 4)]\<rparr>"

text \<open>The position after the capture of the knight on h7.\<close>

definition captured_position :: position where
  "captured_position =
    \<lparr>pos_board = apply_move mate_board capture_move, pos_turn = Black, pos_halfmoves = 0,
     pos_history = [(mate_board, White, 0)]\<rparr>"

text \<open>
  White: king h1, knight g1, pawns a4, g2 and h2. Black: king h8, knight e4, pawn b5.
  White is to move and Black threatens the smothered mate with the knight on f2.
  Every move of White's knight and of the pawns on g2 and h2 gives the king a square
  or guards f2; the two moves of the pawn on a4 leave the mate on.
\<close>

definition threat_board :: board where
  "threat_board =
    [[None, None, None, None, None, None, None, Some \<lparr>type = King, color = Black\<rparr>],
     [None, None, None, None, None, None, None, None],
     [None, None, None, None, None, None, None, None],
     [None, Some \<lparr>type = Pawn, color = Black\<rparr>, None, None, None, None, None, None],
     [Some \<lparr>type = Pawn, color = White\<rparr>, None, None, None, Some \<lparr>type = Knight, color = Black\<rparr>, None, None, None],
     [None, None, None, None, None, None, None, None],
     [None, None, None, None, None, None, Some \<lparr>type = Pawn, color = White\<rparr>, Some \<lparr>type = Pawn, color = White\<rparr>],
     [None, None, None, None, None, None, Some \<lparr>type = Knight, color = White\<rparr>, Some \<lparr>type = King, color = White\<rparr>]]"

definition threat_position :: position where
  "threat_position = start_from threat_board White"

text \<open>White's capture of the pawn on b5, Black's mating reply, and White's quiet move
  of the pawn to h3 instead.\<close>

definition pawn_capture_move :: Move where
  "pawn_capture_move =
    \<lparr>mcolor = White, from_sq = (4, 0), to_sq = (3, 1), piece = Pawn, captured = Some Pawn,
     promotion = None, flags = ''c'', san = ''axb5''\<rparr>"

definition smother_move :: Move where
  "smother_move =
    \<lparr>mcolor = Black, from_sq = (4, 4), to_sq = (6, 5), piece = Knight, captured = None,
     promotion = None, flags = ''n'', san = ''Nf2#''\<rparr>"

definition luft_move :: Move where
  "luft_move =
    \<lparr>mcolor = White, from_sq = (6, 7), to_sq = (5, 7), piece = Pawn, captured = None,
     promotion = None, flags = ''n'', san = ''h3''\<rparr>"

definition pawn_captured_position :: position where
  "pawn_captured_position =
    \<lparr>pos_board = apply_move threat_board pawn_capture_move, pos_turn = Black,
     pos_halfmoves = 0, pos_history = [(threat_board, White, 0)]\<rparr>"

definition smothered_position :: position where
  "smothered_position =
    \<lparr>pos_board = apply_move (apply_move threat_board pawn_capture_move) smother_move,
     pos_turn = White, pos_halfmoves = 1,
     pos_history = [(apply_move threat_board pawn_capture_move, Black, 0),
       (threat_board, White, 0)]\<rparr>"

definition luft_position :: position where
  "luft_position =
    \<lparr>pos_board = apply_move threat_board luft_move, pos_turn = Black,
     pos_halfmoves = 0, pos_history = [(threat_board, White, 0)]\<rparr>"
section \<open>Properties of the evaluator\<close>

lemma cell_valid:
  "wf_board b \<Longrightarrow> isValidSquare r c \<Longrightarrow> cell b r c = Some (b ! nat r ! nat c)"
proof -
  assume wf: "wf_board b" and v: "isValidSquare r c"
  from v have r: "0 \<le> r" "r < 8" and c: "0 \<le> c" "c < 8"
    by (simp_all add: isValidSquare_def)
  from wf have len: "length b = 8" and rows: "\<forall>n < 8. length (b ! n) = 8"
    by (simp_all add: wf_board_def list_all_length)
  from r have "nat r < 8" by simp
  with rows have "length (b ! nat r) = 8" by blast
  with len r c show ?thesis by (simp add: cell_def)
qed

lemma cell_valid_ex:
  "wf_board b \<Longrightarrow> isValidSquare r c \<Longrightarrow> \<exists>v. cell b r c = Some v"
  by (simp add: cell_valid)

lemma shield_loop_sum:
  "wf_board b \<Longrightarrow>
   shield_loop b row isWhite fs score = Some (score + (\<Sum>f \<leftarrow> fs. shield_term b row isWhite f))"
proof (induction fs arbitrary: score)
  case Nil
  then show ?case by simp
next
  case (Cons f fs)
  show ?case
  proof (cases "isValidSquare row f")
    case True
    then obtain v where v: "cell b row f = Some v"
      using cell_valid_ex [OF Cons.prems] by blast
    from True have "f \<ge> 0 \<and> f < 8" by (simp add: isValidSquare_def)
    with True v show ?thesis
      by (simp add: Cons.IH [OF Cons.prems] shield_term_def KING_SHIELD_BONUS_def
          KING_OPEN_FILE_PENALTY_def split: option.splits)
  next
    case False
    then show ?thesis
      by (simp add: Cons.IH [OF Cons.prems] shield_term_def)
  qed
qed

lemma upto_three: "[c - 1 .. c + 1] = [c - 1, c, c + (1::int)]"
  by (simp add: upto.simps)

lemma evaluateKingSafety_spec:
  "wf_board b \<Longrightarrow> evaluateKingSafety b r c isWhite = Some (spec_king_safety b r c isWhite)"
proof -
  assume wf: "wf_board b"
  show ?thesis
  proof (cases isWhite)
    case True
    then show ?thesis
      by (simp add: evaluateKingSafety_def spec_king_safety_def rank_of_row_def
          shield_loop_sum [OF wf] upto_three del: shield_loop.simps)
  next
    case False
    then show ?thesis
      by (simp add: evaluateKingSafety_def spec_king_safety_def rank_of_row_def
          shield_loop_sum [OF wf] upto_three del: shield_loop.simps)
  qed
qed

lemma slide_walk:
  assumes wf: "wf_board b"
  shows "\<not> isValidSquare (nr + int n * dr) (nc + int n * dc) \<Longrightarrow>
    slide b col dr dc nr nc moves =
      Some (moves + ray_count b col
        (takeWhile on_board (map (\<lambda>i. (nr + int i * dr, nc + int i * dc)) [0 ..< n])))"
proof (induction n arbitrary: nr nc moves)
  case 0
  then show ?case
    by (subst slide.simps) (simp add: ray_count_def)
next
  case (Suc n)
  have shift: "map (\<lambda>i. (nr + int i * dr, nc + int i * dc)) [0 ..< Suc n] =
      (nr, nc) # map (\<lambda>i. (nr + dr + int i * dr, nc + dc + int i * dc)) [0 ..< n]"
    by (simp add: upt_conv_Cons map_Suc_upt [symmetric] algebra_simps del: upt_Suc)
  show ?case
  proof (cases "isValidSquare nr nc")
    case False
    then have "\<not> on_board (nr, nc)" by (simp add: on_board_def)
    with False show ?thesis
      by (subst slide.simps) (simp add: shift ray_count_def del: upt_Suc)
  next
    case True
    then have ob: "on_board (nr, nc)" by (simp add: on_board_def)
    note cv = cell_valid [OF wf True]
    show ?thesis
    proof (cases "b ! nat nr ! nat nc")
      case None
      with cv have emp: "is_empty_sq b (nr, nc)" by (simp add: is_empty_sq_def)
      have "\<not> isValidSquare (nr + dr + int n * dr) (nc + dc + int n * dc)"
        using Suc.prems by (simp add: algebra_simps)
      from Suc.IH [OF this] None True cv ob emp show ?thesis
        by (subst slide.simps) (simp add: shift ray_count_def del: upt_Suc)
    next
      case (Some t)
      with cv have emp: "\<not> is_empty_sq b (nr, nc)" by (simp add: is_empty_sq_def)
      from Some cv have en: "holds_enemy b col (nr, nc) = (color t \<noteq> col)"
        by (simp add: holds_enemy_def)
      from Some True cv ob emp en show ?thesis
        by (subst slide.simps) (simp add: shift ray_count_def del: upt_Suc)
    qed
  qed
qed

lemma ray_shift:
  "ray r c dr dc =
    takeWhile on_board (map (\<lambda>i. (r + dr + int i * dr, c + dc + int i * dc)) [0 ..< 7])"
proof -
  have "[1 ..< 8] = map Suc [0 ..< 7]"
    by (simp only: map_Suc_upt) simp
  then show ?thesis
    by (simp add: ray_def comp_def algebra_simps del: upt_Suc)
qed

lemma slide_ray:
  assumes wf: "wf_board b" and v: "isValidSquare r c" and d: "unit_dir (dr, dc)"
  shows "slide b col dr dc (r + dr) (c + dc) moves =
    Some (moves + ray_count b col (ray r c dr dc))"
proof -
  from d have "(dr = 0 \<or> dr = 1 \<or> dr = -1) \<and> (dc = 0 \<or> dc = 1 \<or> dc = -1) \<and> (dr \<noteq> 0 \<or> dc \<noteq> 0)"
    by (auto simp: unit_dir_def rookDirs_def bishopDirs_def)
  with v have "\<not> isValidSquare (r + dr + int 7 * dr) (c + dc + int 7 * dc)"
    by (auto simp: isValidSquare_def)
  from slide_walk [OF wf this] show ?thesis
    by (simp only: ray_shift)
qed

lemma dirs_loop_sliding:
  assumes wf: "wf_board b" and v: "isValidSquare r c"
  shows "list_all unit_dir dirs \<Longrightarrow>
    dirs_loop b r c col True dirs moves =
      Some (moves + (\<Sum>(dr, dc) \<leftarrow> dirs. ray_count b col (ray r c dr dc)))"
proof (induction dirs arbitrary: moves)
  case Nil
  then show ?case by simp
next
  case (Cons d dirs)
  obtain dr dc where dd: "d = (dr, dc)" by (cases d)
  with Cons.prems have u: "unit_dir (dr, dc)" and rest: "list_all unit_dir dirs"
    by simp_all
  show ?case
    by (simp add: dd slide_ray [OF wf v u] Cons.IH [OF rest])
qed

lemma dirs_loop_knight:
  assumes wf: "wf_board b"
  shows "dirs_loop b r c col False dirs moves =
      Some (moves + int (length (filter (\<lambda>s. on_board s \<and> \<not> holds_friend b col s)
                      (map (\<lambda>(dr, dc). (r + dr, c + dc)) dirs))))"
proof (induction dirs arbitrary: moves)
  case Nil
  then show ?case by simp
next
  case (Cons d dirs)
  obtain dr dc where dd: "d = (dr, dc)" by (cases d)
  show ?case
  proof (cases "isValidSquare (r + dr) (c + dc)")
    case False
    then show ?thesis
      by (simp add: dd Cons.IH on_board_def)
  next
    case True
    note cv = cell_valid [OF wf True]
    from True cv show ?thesis
      by (cases "b ! nat (r + dr) ! nat (c + dc)")
         (simp_all add: dd Cons.IH on_board_def holds_friend_def)
  qed
qed

lemma getPieceMobility_spec:
  assumes wf: "wf_board b" and v: "isValidSquare r c"
  shows "getPieceMobility b r c ty col = Some (spec_mobility b r c ty col)"
proof -
  have r: "list_all unit_dir rookDirs" and bi: "list_all unit_dir bishopDirs"
    and q: "list_all unit_dir (rookDirs @ bishopDirs)"
    by (simp_all add: unit_dir_def rookDirs_def bishopDirs_def)
  show ?thesis
    by (cases ty)
       (simp_all add: getPieceMobility_def spec_mobility_def dirs_loop_knight [OF wf]
          dirs_loop_sliding [OF wf v r] dirs_loop_sliding [OF wf v bi]
          dirs_loop_sliding [OF wf v q])
qed

lemma first_pass_square_total:
  assumes wf: "wf_board b" and v: "isValidSquare r c"
  shows "first_pass_square b r c t =
    Some (case b ! nat r ! nat c of
            None \<Rightarrow> t
          | Some pc \<Rightarrow>
              gather pc r c
                (t\<lparr>totalEvaluation :=
                     totalEvaluation t
                     + PIECE_VALUES (type pc) * color_sign (color pc)
                     + (if color pc = White then PSTS (type pc) ! nat (r * 8 + c)
                        else PSTS (type pc) ! nat (63 - (r * 8 + c))) * color_sign (color pc)
                     + spec_mobility b r c (type pc) (color pc) * 5 * color_sign (color pc)\<rparr>))"
proof (cases "b ! nat r ! nat c")
  case None
  then show ?thesis
    by (simp add: first_pass_square_def cell_valid [OF wf v])
next
  case (Some pc)
  have mob: "type pc = Pawn \<or> type pc = King \<Longrightarrow> spec_mobility b r c (type pc) (color pc) = 0"
    by (auto simp: spec_mobility_def)
  show ?thesis
  proof (cases "type pc = Pawn \<or> type pc = King")
    case True
    with Some mob show ?thesis
      by (auto simp: first_pass_square_def cell_valid [OF wf v] color_sign_def Let_def)
  next
    case False
    with Some show ?thesis
      by (simp add: first_pass_square_def cell_valid [OF wf v] color_sign_def Let_def
          getPieceMobility_spec [OF wf v] MOBILITY_WEIGHT_def)
  qed
qed

lemma upto_0_7: "[0 .. 7] = [0, 1, 2, 3, 4, 5, 6, 7 :: int]"
  by (simp add: upto.simps)

lemma valid_upto: "list_all valid_index [0 .. 7]"
  by (simp add: upto_0_7 valid_index_def)

lemma valid_sq: "valid_index r \<Longrightarrow> valid_index c \<Longrightarrow> isValidSquare r c"
  by (simp add: valid_index_def isValidSquare_def)

text \<open>A property kept by the body of the first pass is kept by the loops.\<close>

lemma first_pass_cols_inv:
  assumes wf: "wf_board b" and r: "valid_index r"
    and step: "\<And>c t t'. valid_index c \<Longrightarrow> P t \<Longrightarrow> first_pass_square b r c t = Some t' \<Longrightarrow> P t'"
  shows "list_all valid_index cs \<Longrightarrow> P t \<Longrightarrow>
    \<exists>t'. first_pass_cols b r cs t = Some t' \<and> P t'"
proof (induction cs arbitrary: t)
  case Nil
  then show ?case by simp
next
  case (Cons c cs)
  from Cons.prems have c: "valid_index c" and cs: "list_all valid_index cs" by simp_all
  obtain t1 where t1: "first_pass_square b r c t = Some t1"
    using first_pass_square_total [OF wf valid_sq [OF r c]] by blast
  from step [OF c Cons.prems(2) t1] have "P t1" .
  from Cons.IH [OF cs this] t1 show ?case by simp
qed

lemma first_pass_inv:
  assumes wf: "wf_board b"
    and step: "\<And>r c t t'. valid_index r \<Longrightarrow> valid_index c \<Longrightarrow> P t \<Longrightarrow>
                 first_pass_square b r c t = Some t' \<Longrightarrow> P t'"
  shows "list_all valid_index rs \<Longrightarrow> P t \<Longrightarrow>
    \<exists>t'. first_pass b rs t = Some t' \<and> P t'"
proof (induction rs arbitrary: t)
  case Nil
  then show ?case by simp
next
  case (Cons r rs)
  from Cons.prems have r: "valid_index r" and rs: "list_all valid_index rs" by simp_all
  have "\<exists>t1. first_pass_cols b r [0 .. 7] t = Some t1 \<and> P t1"
  proof (rule first_pass_cols_inv [where P = P and cs = "[0 .. 7]" and t = t, OF wf r])
    show "list_all valid_index [0 .. 7]" by (rule valid_upto)
    show "P t" by (rule Cons.prems(2))
  next
    fix c u u'
    assume "valid_index c" "P u" "first_pass_square b r c u = Some u'"
    then show "P u'" by (rule step [OF r])
  qed
  then obtain t1 where t1: "first_pass_cols b r [0 .. 7] t = Some t1" and p1: "P t1"
    by blast
  from Cons.IH [OF rs p1] t1 show ?case by simp
qed

lemma second_pass_square_total:
  assumes wf: "wf_board b" and v: "isValidSquare r c"
  shows "\<exists>v. second_pass_square b t r c tot = Some v"
  by (cases "b ! nat r ! nat c")
     (simp_all add: second_pass_square_def cell_valid [OF wf v] Let_def)

lemma second_pass_cols_total:
  assumes wf: "wf_board b" and r: "valid_index r"
  shows "list_all valid_index cs \<Longrightarrow> \<exists>v. second_pass_cols b t r cs tot = Some v"
proof (induction cs arbitrary: tot)
  case Nil
  then show ?case by simp
next
  case (Cons c cs)
  from Cons.prems have c: "valid_index c" and cs: "list_all valid_index cs" by simp_all
  obtain v1 where "second_pass_square b t r c tot = Some v1"
    using second_pass_square_total [OF wf valid_sq [OF r c]] by blast
  with Cons.IH [OF cs] show ?case by simp
qed

lemma second_pass_total:
  assumes wf: "wf_board b"
  shows "list_all valid_index rs \<Longrightarrow> \<exists>v. second_pass b t rs tot = Some v"
proof (induction rs arbitrary: tot)
  case Nil
  then show ?case by simp
next
  case (Cons r rs)
  from Cons.prems have r: "valid_index r" and rs: "list_all valid_index rs" by simp_all
  obtain v1 where "second_pass_cols b t r [0 .. 7] tot = Some v1"
    using second_pass_cols_total [OF wf r valid_upto] by blast
  with Cons.IH [OF rs] show ?case by simp
qed

lemma evaluateBoard_parts:
  assumes wf: "wf_board b"
  shows "\<exists>t tot. first_pass b [0 .. 7] init_trackers = Some t
    \<and> second_pass b t [0 .. 7] (totalEvaluation t) = Some tot
    \<and> evaluateBoard b =
        Some (tot
              + (if whiteBishopCount t \<ge> 2 then 50 else 0)
              - (if blackBishopCount t \<ge> 2 then 50 else 0)
              + (if fst (whiteKingPos t) \<noteq> - 1
                 then spec_king_safety b (fst (whiteKingPos t)) (snd (whiteKingPos t)) True
                 else 0)
              - (if fst (blackKingPos t) \<noteq> - 1
                 then spec_king_safety b (fst (blackKingPos t)) (snd (blackKingPos t)) False
                 else 0))"
proof -
  have "\<exists>t. first_pass b [0 .. 7] init_trackers = Some t \<and> True"
    by (rule first_pass_inv [where P = "\<lambda>_. True", OF wf]) (simp_all add: valid_upto)
  then obtain t where t: "first_pass b [0 .. 7] init_trackers = Some t"
    by blast
  obtain tot where tot: "second_pass b t [0 .. 7] (totalEvaluation t) = Some tot"
    using second_pass_total [OF wf valid_upto] by blast
  from t tot have "evaluateBoard b =
        Some (tot
              + (if whiteBishopCount t \<ge> 2 then 50 else 0)
              - (if blackBishopCount t \<ge> 2 then 50 else 0)
              + (if fst (whiteKingPos t) \<noteq> - 1
                 then spec_king_safety b (fst (whiteKingPos t)) (snd (whiteKingPos t)) True
                 else 0)
              - (if fst (blackKingPos t) \<noteq> - 1
                 then spec_king_safety b (fst (blackKingPos t)) (snd (blackKingPos t)) False
                 else 0))"
    by (simp add: evaluateBoard_def whiteKingSafety_def blackKingSafety_def
        evaluateKingSafety_spec [OF wf] BISHOP_PAIR_BONUS_def)
  with t tot show ?thesis by blast
qed

lemma has_king_at:
  assumes wf: "wf_board b" and v: "isValidSquare r c"
    and pc: "b ! nat r ! nat c = Some pc" and k: "type pc = King"
  shows "has_king b (color pc)"
proof -
  from v have r: "0 \<le> r" "r < 8" and c: "0 \<le> c" "c < 8"
    by (simp_all add: isValidSquare_def)
  from wf have len: "length b = 8" and rows: "\<forall>n < 8. length (b ! n) = 8"
    by (simp_all add: wf_board_def list_all_length)
  from r have nr: "nat r < 8" by simp
  with rows have "length (b ! nat r) = 8" by blast
  with c have "b ! nat r ! nat c \<in> set (b ! nat r)" by simp
  moreover from nr len have "b ! nat r \<in> set b" by simp
  ultimately have "Some pc \<in> set (b ! nat r)" and "b ! nat r \<in> set b"
    using pc by simp_all
  then have "\<exists>row \<in> set b. \<exists>sq \<in> set row.
      (case sq of Some p \<Rightarrow> type p = King \<and> color p = color pc | None \<Rightarrow> False)"
    using k by (intro bexI [of _ "b ! nat r"] bexI [of _ "Some pc"]) simp_all
  then show ?thesis
    by (simp add: has_king_def list_ex_iff)
qed

lemma gather_no_king_inv:
  assumes "no_king_inv b t" and "type pc = King \<longrightarrow> has_king b (color pc)"
  shows "no_king_inv b (gather pc r c (t\<lparr>totalEvaluation := x\<rparr>))"
proof (cases "color pc")
  case White
  with assms show ?thesis
    by (cases "type pc") (simp_all add: no_king_inv_def gather_def)
next
  case Black
  with assms show ?thesis
    by (cases "type pc") (simp_all add: no_king_inv_def gather_def)
qed

lemma first_pass_square_no_king_inv:
  assumes wf: "wf_board b" and r: "valid_index r" and c: "valid_index c"
    and inv: "no_king_inv b t" and eq: "first_pass_square b r c t = Some t'"
  shows "no_king_inv b t'"
proof (cases "b ! nat r ! nat c")
  case None
  with eq inv show ?thesis
    by (simp add: first_pass_square_total [OF wf valid_sq [OF r c]])
next
  case (Some pc)
  have "type pc = King \<longrightarrow> has_king b (color pc)"
    using has_king_at [OF wf valid_sq [OF r c] Some] by blast
  note g = gather_no_king_inv [OF inv this]
  from Some eq have "\<exists>x. t' = gather pc r c (t\<lparr>totalEvaluation := x\<rparr>)"
    by (simp add: first_pass_square_total [OF wf valid_sq [OF r c]]) blast
  with g show ?thesis by auto
qed

lemma first_pass_no_king_inv:
  assumes wf: "wf_board b"
  shows "\<exists>t. first_pass b [0 .. 7] init_trackers = Some t \<and> no_king_inv b t"
proof (rule first_pass_inv [where P = "no_king_inv b", OF wf])
  show "list_all valid_index [0 .. 7]" by (rule valid_upto)
  show "no_king_inv b init_trackers" by (simp add: no_king_inv_def init_trackers_def)
next
  fix r c t t'
  assume "valid_index r" "valid_index c" "no_king_inv b t" "first_pass_square b r c t = Some t'"
  then show "no_king_inv b t'" by (rule first_pass_square_no_king_inv [OF wf])
qed


text \<open>The reads of the piece-square tables are inside the tables.\<close>

lemma PSTS_length: "length (PSTS ty) = 64"
  by (cases ty)
     (simp_all add: PAWN_PST_def KNIGHT_PST_def BISHOP_PST_def ROOK_PST_def QUEEN_PST_def
        KING_PST_def)

lemma square_index_range:
  "isValidSquare r c \<Longrightarrow>
   nat (r * 8 + c) < 64 \<and> nat (63 - (r * 8 + c)) < 64 \<and> 0 \<le> r * 8 + c \<and> r * 8 + c \<le> 63"
  by (auto simp: isValidSquare_def)

text \<open>The first pass records the square of a king that is the only one of its colour.\<close>

lemma all_squares_valid: "isValidSquare r c \<Longrightarrow> (r, c) \<in> set all_squares"
proof -
  assume "isValidSquare r c"
  then have "r \<in> {0 .. 7}" and "c \<in> {0 .. 7}" by (simp_all add: isValidSquare_def)
  then have "\<exists>x \<in> {0 .. 7}. (r, c) \<in> Pair x ` {0 .. 7}" by blast
  then show ?thesis by (simp add: all_squares_def)
qed

lemma first_pass_cols_reach:
  assumes wf: "wf_board b" and r: "valid_index r"
    and keep: "\<And>c t t'. valid_index c \<Longrightarrow> R t \<Longrightarrow> first_pass_square b r c t = Some t' \<Longrightarrow> R t'"
    and hit: "\<And>t t'. first_pass_square b r c0 t = Some t' \<Longrightarrow> R t'"
  shows "c0 \<in> set cs \<Longrightarrow> list_all valid_index cs \<Longrightarrow>
    \<exists>t'. first_pass_cols b r cs t = Some t' \<and> R t'"
proof (induction cs arbitrary: t)
  case Nil
  then show ?case by simp
next
  case (Cons c cs)
  from Cons.prems have c: "valid_index c" and cs: "list_all valid_index cs" by simp_all
  obtain t1 where t1: "first_pass_square b r c t = Some t1"
    using first_pass_square_total [OF wf valid_sq [OF r c]] by blast
  show ?case
  proof (cases "c = c0")
    case True
    with t1 have "R t1" using hit by blast
    have "\<exists>t'. first_pass_cols b r cs t1 = Some t' \<and> R t'"
    proof (rule first_pass_cols_inv [where P = R, OF wf r])
      show "list_all valid_index cs" by (rule cs)
      show "R t1" by (rule \<open>R t1\<close>)
    next
      fix c u u' assume "valid_index c" "R u" "first_pass_square b r c u = Some u'"
      then show "R u'" by (rule keep)
    qed
    with t1 show ?thesis by simp
  next
    case False
    with Cons.prems have "c0 \<in> set cs" by simp
    from Cons.IH [OF this cs, of t1] t1 show ?thesis by simp
  qed
qed

lemma first_pass_reach:
  assumes wf: "wf_board b"
    and keep: "\<And>r c t t'. valid_index r \<Longrightarrow> valid_index c \<Longrightarrow> R t \<Longrightarrow>
                 first_pass_square b r c t = Some t' \<Longrightarrow> R t'"
    and hit: "\<And>t t'. first_pass_square b r0 c0 t = Some t' \<Longrightarrow> R t'"
    and c0: "valid_index c0"
  shows "r0 \<in> set rs \<Longrightarrow> list_all valid_index rs \<Longrightarrow>
    \<exists>t'. first_pass b rs t = Some t' \<and> R t'"
proof (induction rs arbitrary: t)
  case Nil
  then show ?case by simp
next
  case (Cons r rs)
  from Cons.prems have r: "valid_index r" and rs: "list_all valid_index rs" by simp_all
  from c0 have c0mem: "c0 \<in> set [0 .. 7]" by (simp add: valid_index_def)
  show ?case
  proof (cases "r = r0")
    case True
    have "\<exists>t1. first_pass_cols b r [0 .. 7] t = Some t1 \<and> R t1"
    proof (rule first_pass_cols_reach [where R = R and ?c0.0 = c0, OF wf r])
      show "c0 \<in> set [0 .. 7]" by (rule c0mem)
      show "list_all valid_index [0 .. 7]" by (rule valid_upto)
    next
      fix c u u' assume "valid_index c" "R u" "first_pass_square b r c u = Some u'"
      then show "R u'" by (rule keep [OF r])
    next
      fix u u' assume "first_pass_square b r c0 u = Some u'"
      with True show "R u'" using hit by blast
    qed
    then obtain t1 where t1: "first_pass_cols b r [0 .. 7] t = Some t1" and r1: "R t1" by blast
    have "\<exists>t'. first_pass b rs t1 = Some t' \<and> R t'"
    proof (rule first_pass_inv [where P = R, OF wf])
      show "list_all valid_index rs" by (rule rs)
      show "R t1" by (rule r1)
    next
      fix r c u u'
      assume "valid_index r" "valid_index c" "R u" "first_pass_square b r c u = Some u'"
      then show "R u'" by (rule keep)
    qed
    with t1 show ?thesis by simp
  next
    case False
    with Cons.prems have mem: "r0 \<in> set rs" by simp
    have "\<exists>t1. first_pass_cols b r [0 .. 7] t = Some t1 \<and> True"
      by (rule first_pass_cols_inv [where P = "\<lambda>_. True", OF wf r]) (simp_all add: valid_upto)
    then obtain t1 where t1: "first_pass_cols b r [0 .. 7] t = Some t1" by blast
    from Cons.IH [OF mem rs, of t1] t1 show ?thesis by simp
  qed
qed

lemma king_recorded:
  assumes wf: "wf_board b" and u: "king_squares b col = [(kr, kc)]"
  shows "\<exists>t. first_pass b [0 .. 7] init_trackers = Some t \<and>
    (if col = White then whiteKingPos t else blackKingPos t) = (kr, kc)"
proof -
  let ?K = "Some (Some \<lparr>type = King, color = col\<rparr>)"
  let ?R = "\<lambda>t. (if col = White then whiteKingPos t else blackKingPos t) = (kr, kc)"
  from u have "(kr, kc) \<in> set (king_squares b col)" by simp
  then have onb: "(kr, kc) \<in> set all_squares" and k: "cell b kr kc = ?K"
    by (simp_all add: king_squares_def)
  from onb have v: "isValidSquare kr kc"
    by (auto simp: all_squares_def isValidSquare_def)
  then have vr: "valid_index kr" and vc: "valid_index kc"
    by (simp_all add: isValidSquare_def valid_index_def)
  have uniq: "\<And>r c. isValidSquare r c \<Longrightarrow> cell b r c = ?K \<Longrightarrow> (r, c) = (kr, kc)"
  proof -
    fix r c assume "isValidSquare r c" and "cell b r c = ?K"
    then have "(r, c) \<in> set (king_squares b col)"
      by (simp add: king_squares_def all_squares_valid)
    with u show "(r, c) = (kr, kc)" by simp
  qed
  have hit: "\<And>t t'. first_pass_square b kr kc t = Some t' \<Longrightarrow> ?R t'"
  proof -
    fix t t' assume eq: "first_pass_square b kr kc t = Some t'"
    from k have "b ! nat kr ! nat kc = Some \<lparr>type = King, color = col\<rparr>"
      by (simp add: cell_valid [OF wf v])
    with eq show "?R t'"
      by (auto simp: first_pass_square_total [OF wf v] gather_def)
  qed
  have keep: "\<And>r c t t'. valid_index r \<Longrightarrow> valid_index c \<Longrightarrow> ?R t \<Longrightarrow>
                 first_pass_square b r c t = Some t' \<Longrightarrow> ?R t'"
  proof -
    fix r c t t'
    assume r: "valid_index r" and c: "valid_index c" and R: "?R t"
      and eq: "first_pass_square b r c t = Some t'"
    note vs = valid_sq [OF r c]
    show "?R t'"
    proof (cases "b ! nat r ! nat c")
      case None
      with eq R show ?thesis by (auto simp: first_pass_square_total [OF wf vs])
    next
      case (Some pc)
      show ?thesis
      proof (cases "type pc = King \<and> color pc = col")
        case True
        then have "pc = \<lparr>type = King, color = col\<rparr>" by (cases pc) simp
        with Some have "cell b r c = ?K" by (simp add: cell_valid [OF wf vs])
        from uniq [OF vs this] have "r = kr" "c = kc" by simp_all
        with eq have "first_pass_square b kr kc t = Some t'" by simp
        then show ?thesis by (rule hit)
      next
        case False
        with Some eq R show ?thesis
          by (cases col; cases "color pc")
             (auto simp: first_pass_square_total [OF wf vs] gather_def Let_def
                split: if_splits)
      qed
    qed
  qed
  from vr have mem: "kr \<in> set [0 .. 7]" by (simp add: valid_index_def)
  show ?thesis
    by (rule first_pass_reach [where R = ?R and ?r0.0 = kr and ?c0.0 = kc, OF wf keep hit vc mem valid_upto])
qed

lemma king_squares_valid:
  "king_squares b col = [(kr, kc)] \<Longrightarrow> isValidSquare kr kc"
proof -
  assume "king_squares b col = [(kr, kc)]"
  then have "(kr, kc) \<in> set (king_squares b col)" by simp
  then have "(kr, kc) \<in> set all_squares" by (simp add: king_squares_def)
  then show ?thesis by (auto simp: all_squares_def isValidSquare_def)
qed

section \<open>Properties of the searcher\<close>

lemma evaluateBoard_Some: "wf_board b \<Longrightarrow> \<exists>v. evaluateBoard b = Some v"
  using evaluateBoard_parts by blast

lemma set_sort_moves: "set (sort_moves ms) = set ms"
  by (simp add: sort_moves_def)

lemma minimax_leaf:
  "d = 0 \<or> game_isGameOver E g \<Longrightarrow> evaluateBoard (game_board E g) = Some v \<Longrightarrow>
   minimax E g d a b mx = Some (\<lparr>bestMove = None, bestScore = Fin v\<rparr>, g)"
  by auto

lemma minimax_node:
  "d \<noteq> 0 \<Longrightarrow> \<not> game_isGameOver E g \<Longrightarrow>
   minimax E g d a b mx =
     (if mx then max_loop E g (d - 1) a b (sort_moves (game_moves E g)) NegInf None
      else min_loop E g (d - 1) a b (sort_moves (game_moves E g)) PosInf None)"
  by simp

lemma max_loop_step:
  assumes "game_move E g m = Some g1" and "minimax E g1 d a b False = Some (res, g1)"
    and "game_undo E g1 = g"
  shows "max_loop E g d a b (m # ms) ev best =
    (if b \<le> max a (bestScore res)
     then Some (\<lparr>bestMove = (if bestScore res > ev then Some m else best),
                 bestScore = (if bestScore res > ev then bestScore res else ev)\<rparr>, g)
     else max_loop E g d (max a (bestScore res)) b ms
            (if bestScore res > ev then bestScore res else ev)
            (if bestScore res > ev then Some m else best))"
  using assms by (simp add: Let_def)

lemma min_loop_step:
  assumes "game_move E g m = Some g1" and "minimax E g1 d a b True = Some (res, g1)"
    and "game_undo E g1 = g"
  shows "min_loop E g d a b (m # ms) ev best =
    (if min b (bestScore res) \<le> a
     then Some (\<lparr>bestMove = (if bestScore res < ev then Some m else best),
                 bestScore = (if bestScore res < ev then bestScore res else ev)\<rparr>, g)
     else min_loop E g d a (min b (bestScore res)) ms
            (if bestScore res < ev then bestScore res else ev)
            (if bestScore res < ev then Some m else best))"
  using assms by (simp add: Let_def)

text \<open>From here on the search is unfolded by the lemmas above only.\<close>

declare minimax.simps [simp del] max_loop.simps(2) [simp del] min_loop.simps(2) [simp del]

lemma max_loop_returns:
  "\<forall>m \<in> set ms. child_returns E g d m \<Longrightarrow>
   \<exists>res. max_loop E g d a b ms ev best = Some (res, g) \<and>
     (bestMove res = best \<or> (\<exists>m \<in> set ms. bestMove res = Some m))"
proof (induction ms arbitrary: a ev best)
  case Nil
  then show ?case by simp
next
  case (Cons m ms)
  from Cons.prems obtain g1 where g1: "game_move E g m = Some g1" "game_undo E g1 = g"
    and ch: "\<forall>a b mx. \<exists>res. minimax E g1 d a b mx = Some (res, g1)"
    by (auto simp: child_returns_def)
  from ch obtain res where res: "minimax E g1 d a b False = Some (res, g1)" by blast
  note step = max_loop_step [OF g1(1) res g1(2)]
  show ?case
  proof (cases "b \<le> max a (bestScore res)")
    case True
    then show ?thesis by (simp add: step)
  next
    case False
    from Cons.prems have "\<forall>m \<in> set ms. child_returns E g d m" by simp
    from Cons.IH [OF this] obtain r where
      "max_loop E g d (max a (bestScore res)) b ms
            (if bestScore res > ev then bestScore res else ev)
            (if bestScore res > ev then Some m else best) = Some (r, g)"
      and "bestMove r = (if bestScore res > ev then Some m else best) \<or> (\<exists>m \<in> set ms. bestMove r = Some m)"
      by blast
    with False show ?thesis by (auto simp: step)
  qed
qed

lemma min_loop_returns:
  "\<forall>m \<in> set ms. child_returns E g d m \<Longrightarrow>
   \<exists>res. min_loop E g d a b ms ev best = Some (res, g) \<and>
     (bestMove res = best \<or> (\<exists>m \<in> set ms. bestMove res = Some m))"
proof (induction ms arbitrary: b ev best)
  case Nil
  then show ?case by simp
next
  case (Cons m ms)
  from Cons.prems obtain g1 where g1: "game_move E g m = Some g1" "game_undo E g1 = g"
    and ch: "\<forall>a b mx. \<exists>res. minimax E g1 d a b mx = Some (res, g1)"
    by (auto simp: child_returns_def)
  from ch obtain res where res: "minimax E g1 d a b True = Some (res, g1)" by blast
  note step = min_loop_step [OF g1(1) res g1(2)]
  show ?case
  proof (cases "min b (bestScore res) \<le> a")
    case True
    then show ?thesis by (simp add: step)
  next
    case False
    from Cons.prems have "\<forall>m \<in> set ms. child_returns E g d m" by simp
    from Cons.IH [OF this] obtain r where
      "min_loop E g d a (min b (bestScore res)) ms
            (if bestScore res < ev then bestScore res else ev)
            (if bestScore res < ev then Some m else best) = Some (r, g)"
      and "bestMove r = (if bestScore res < ev then Some m else best) \<or> (\<exists>m \<in> set ms. bestMove r = Some m)"
      by blast
    with False show ?thesis by (auto simp: step)
  qed
qed

lemma minimax_returns:
  assumes ok: "rules_ok E I"
  shows "I g \<Longrightarrow> \<exists>res. minimax E g d a b mx = Some (res, g) \<and>
    (\<forall>m. bestMove res = Some m \<longrightarrow> m \<in> set (game_moves E g))"
proof (induction d arbitrary: g a b mx)
  case 0
  from ok 0 have "wf_board (game_board E g)" by (simp add: rules_ok_def)
  then obtain v where "evaluateBoard (game_board E g) = Some v"
    using evaluateBoard_Some by blast
  then show ?case by (simp add: minimax_leaf)
next
  case (Suc d)
  show ?case
  proof (cases "game_isGameOver E g")
    case True
    from ok Suc.prems have "wf_board (game_board E g)" by (simp add: rules_ok_def)
    then obtain v where "evaluateBoard (game_board E g) = Some v"
      using evaluateBoard_Some by blast
    with True show ?thesis by (simp add: minimax_leaf)
  next
    case False
    have ch: "\<forall>m \<in> set (sort_moves (game_moves E g)). child_returns E g d m"
    proof
      fix m assume "m \<in> set (sort_moves (game_moves E g))"
      then have "m \<in> set (game_moves E g)" by (simp add: set_sort_moves)
      with ok Suc.prems obtain g1 where g1: "game_move E g m = Some g1" "game_undo E g1 = g" "I g1"
        unfolding rules_ok_def by blast
      from Suc.IH [OF g1(3)] have "\<forall>a b mx. \<exists>res. minimax E g1 d a b mx = Some (res, g1)"
        by blast
      with g1 show "child_returns E g d m" by (auto simp: child_returns_def)
    qed
    show ?thesis
    proof (cases mx)
      case True
      from max_loop_returns [OF ch, of a b NegInf None] False True show ?thesis
        by (auto simp: minimax_node set_sort_moves)
    next
      case mn: False
      from min_loop_returns [OF ch, of a b PosInf None] False mn show ?thesis
        by (auto simp: minimax_node set_sort_moves)
    qed
  qed
qed

subsection \<open>Finite scores\<close>

lemma Fin_gt_NegInf: "NegInf < Fin v" and Fin_lt_PosInf: "Fin v < PosInf"
  by (simp_all add: less_score_def)

lemma max_loop_finite:
  "\<forall>m \<in> set ms. child_finite E g d m \<Longrightarrow>
   (ev = NegInf \<and> ms \<noteq> []) \<or> ((\<exists>v. ev = Fin v) \<and> best \<noteq> None) \<Longrightarrow>
   \<exists>res v. max_loop E g d a b ms ev best = Some (res, g) \<and> bestScore res = Fin v \<and>
     bestMove res \<noteq> None"
proof (induction ms arbitrary: a ev best)
  case Nil
  then show ?case by auto
next
  case (Cons m ms)
  from Cons.prems(1) obtain g1 where g1: "game_move E g m = Some g1" "game_undo E g1 = g"
    and ch: "\<forall>a b mx. \<exists>res v. minimax E g1 d a b mx = Some (res, g1) \<and> bestScore res = Fin v"
    by (auto simp: child_finite_def)
  from ch obtain res x where res: "minimax E g1 d a b False = Some (res, g1)"
    and x: "bestScore res = Fin x" by blast
  note step = max_loop_step [OF g1(1) res g1(2)]
  let ?ev = "if bestScore res > ev then bestScore res else ev"
  let ?best = "if bestScore res > ev then Some m else best"
  from Cons.prems(2) x have next_ok: "(\<exists>v. ?ev = Fin v) \<and> ?best \<noteq> None"
    by (auto simp: Fin_gt_NegInf)
  show ?case
  proof (cases "b \<le> max a (bestScore res)")
    case True
    with next_ok show ?thesis by (auto simp: step)
  next
    case False
    from Cons.prems(1) have "\<forall>m \<in> set ms. child_finite E g d m" by simp
    from Cons.IH [OF this, of ?ev ?best "max a (bestScore res)"] next_ok False
    show ?thesis by (simp add: step)
  qed
qed

lemma min_loop_finite:
  "\<forall>m \<in> set ms. child_finite E g d m \<Longrightarrow>
   (ev = PosInf \<and> ms \<noteq> []) \<or> ((\<exists>v. ev = Fin v) \<and> best \<noteq> None) \<Longrightarrow>
   \<exists>res v. min_loop E g d a b ms ev best = Some (res, g) \<and> bestScore res = Fin v \<and>
     bestMove res \<noteq> None"
proof (induction ms arbitrary: b ev best)
  case Nil
  then show ?case by auto
next
  case (Cons m ms)
  from Cons.prems(1) obtain g1 where g1: "game_move E g m = Some g1" "game_undo E g1 = g"
    and ch: "\<forall>a b mx. \<exists>res v. minimax E g1 d a b mx = Some (res, g1) \<and> bestScore res = Fin v"
    by (auto simp: child_finite_def)
  from ch obtain res x where res: "minimax E g1 d a b True = Some (res, g1)"
    and x: "bestScore res = Fin x" by blast
  note step = min_loop_step [OF g1(1) res g1(2)]
  let ?ev = "if bestScore res < ev then bestScore res else ev"
  let ?best = "if bestScore res < ev then Some m else best"
  from Cons.prems(2) x have next_ok: "(\<exists>v. ?ev = Fin v) \<and> ?best \<noteq> None"
    by (auto simp: Fin_lt_PosInf)
  show ?case
  proof (cases "min b (bestScore res) \<le> a")
    case True
    with next_ok show ?thesis by (auto simp: step)
  next
    case False
    from Cons.prems(1) have "\<forall>m \<in> set ms. child_finite E g d m" by simp
    from Cons.IH [OF this, of ?ev ?best "min b (bestScore res)"] next_ok False
    show ?thesis by (simp add: step)
  qed
qed

lemma minimax_finite:
  assumes ok: "rules_ok E I" and nd: "no_dead_end E I"
  shows "I g \<Longrightarrow> \<exists>res v. minimax E g d a b mx = Some (res, g) \<and> bestScore res = Fin v \<and>
    (d \<noteq> 0 \<and> \<not> game_isGameOver E g \<longrightarrow> bestMove res \<noteq> None)"
proof (induction d arbitrary: g a b mx)
  case 0
  from ok 0 have "wf_board (game_board E g)" by (simp add: rules_ok_def)
  then obtain v where "evaluateBoard (game_board E g) = Some v"
    using evaluateBoard_Some by blast
  then show ?case by (simp add: minimax_leaf)
next
  case (Suc d)
  show ?case
  proof (cases "game_isGameOver E g")
    case True
    from ok Suc.prems have "wf_board (game_board E g)" by (simp add: rules_ok_def)
    then obtain v where "evaluateBoard (game_board E g) = Some v"
      using evaluateBoard_Some by blast
    with True show ?thesis by (simp add: minimax_leaf)
  next
    case False
    with nd Suc.prems have "game_moves E g \<noteq> []" by (auto simp: no_dead_end_def)
    then have ne: "sort_moves (game_moves E g) \<noteq> []"
      using set_sort_moves [of "game_moves E g"] by (metis set_empty)
    have ch: "\<forall>m \<in> set (sort_moves (game_moves E g)). child_finite E g d m"
    proof
      fix m assume "m \<in> set (sort_moves (game_moves E g))"
      then have "m \<in> set (game_moves E g)" by (simp add: set_sort_moves)
      with ok Suc.prems obtain g1 where g1: "game_move E g m = Some g1" "game_undo E g1 = g" "I g1"
        unfolding rules_ok_def by blast
      from Suc.IH [OF g1(3)]
      have "\<forall>a b mx. \<exists>res v. minimax E g1 d a b mx = Some (res, g1) \<and> bestScore res = Fin v"
        by blast
      with g1 show "child_finite E g d m" by (auto simp: child_finite_def)
    qed
    show ?thesis
    proof (cases mx)
      case True
      from max_loop_finite [OF ch, of NegInf None a b] ne False True show ?thesis
        by (simp add: minimax_node)
    next
      case mn: False
      from min_loop_finite [OF ch, of PosInf None a b] ne False mn show ?thesis
        by (simp add: minimax_node)
    qed
  qed
qed

subsection \<open>Pruning and the exact value\<close>

lemma fold_max_Cons: "fold max (x # xs) (a :: score) = max x (fold max xs a)"
proof (induction xs arbitrary: a)
  case Nil
  then show ?case by (simp add: max.commute)
next
  case (Cons y ys)
  have "fold max (x # y # ys) a = fold max (x # ys) (max y a)"
    by (simp add: max.left_commute)
  also have "\<dots> = max x (fold max ys (max y a))" by (rule Cons.IH)
  finally show ?case by simp
qed

lemma fold_min_Cons: "fold min (x # xs) (a :: score) = min x (fold min xs a)"
proof (induction xs arbitrary: a)
  case Nil
  then show ?case by (simp add: min.commute)
next
  case (Cons y ys)
  have "fold min (x # y # ys) a = fold min (x # ys) (min y a)"
    by (simp add: min.left_commute)
  also have "\<dots> = min x (fold min ys (min y a))" by (rule Cons.IH)
  finally show ?case by simp
qed

lemma NegInf_le [simp]: "NegInf \<le> (x :: score)"
  by simp

lemma le_PosInf [simp]: "(x :: score) \<le> PosInf"
  by (cases x) simp_all

lemma max_loop_exact:
  "\<forall>m \<in> set ms. child_exact E g d False cv m \<Longrightarrow> a < b \<Longrightarrow> ev \<le> a \<Longrightarrow>
   \<exists>res. max_loop E g d a b ms ev best = Some (res, g) \<and>
     within_window a b (fold max (map cv ms) NegInf) (bestScore res) \<and> ev \<le> bestScore res"
proof (induction ms arbitrary: a ev best)
  case Nil
  then show ?case by (auto simp: within_window_def)
next
  case (Cons m ms)
  from Cons.prems(1) obtain g1 where g1: "game_move E g m = Some g1" "game_undo E g1 = g"
    and ch: "\<forall>a b. a < b \<longrightarrow> (\<exists>res. minimax E g1 d a b False = Some (res, g1) \<and>
             within_window a b (cv m) (bestScore res))"
    by (auto simp: child_exact_def)
  from ch Cons.prems(2) obtain res where res: "minimax E g1 d a b False = Some (res, g1)"
    and w: "within_window a b (cv m) (bestScore res)" by blast
  note step = max_loop_step [OF g1(1) res g1(2)]
  define s where "s = bestScore res"
  define V where "V = fold max (map cv ms) NegInf"
  have total: "fold max (map cv (m # ms)) NegInf = max (cv m) V"
    by (simp only: list.map fold_max_Cons V_def)
  let ?ev = "if s > ev then s else ev"
  let ?best = "if s > ev then Some m else best"
  show ?case
  proof (cases "b \<le> max a s")
    case True
    with Cons.prems(2) have sb: "b \<le> s" by (simp add: max_def split: if_splits)
    with Cons.prems have "ev < s" by auto
    moreover from w sb have "s \<le> cv m" by (simp add: within_window_def s_def)
    ultimately have ww: "within_window a b (max (cv m) V) s" and es: "ev \<le> s"
      using sb Cons.prems(2) by (auto simp: within_window_def max_def)
    from True \<open>ev < s\<close>
    have "max_loop E g d a b (m # ms) ev best = Some (\<lparr>bestMove = Some m, bestScore = s\<rparr>, g)"
      unfolding s_def by (simp add: step)
    with ww es show ?thesis
      unfolding total by simp
  next
    case False
    then have ab: "max a s < b" by (simp only: not_le)
    have le: "?ev \<le> max a s" using Cons.prems(3) by (auto simp: max_def)
    from Cons.prems(1) have "\<forall>m \<in> set ms. child_exact E g d False cv m" by simp
    from Cons.IH [OF this ab le, of ?best] obtain r where
      r: "max_loop E g d (max a s) b ms ?ev ?best = Some (r, g)"
      and wr: "within_window (max a s) b V (bestScore r)" and er: "?ev \<le> bestScore r"
      by (auto simp: V_def)
    from ab have sb: "s < b" by simp
    with w have vs: "cv m \<le> s" and exact: "a < s \<longrightarrow> s = cv m"
      by (auto simp: within_window_def s_def)
    have "within_window a b (max (cv m) V) (bestScore r)"
      unfolding within_window_def
    proof (intro conjI impI)
      assume "bestScore r \<le> a"
      with wr have "V \<le> bestScore r" by (auto simp: within_window_def max_def split: if_splits)
      moreover from vs er have "cv m \<le> bestScore r" by (auto split: if_splits)
      ultimately show "max (cv m) V \<le> bestScore r" by simp
    next
      assume h: "a < bestScore r \<and> bestScore r < b"
      show "bestScore r = max (cv m) V"
      proof (cases "bestScore r \<le> max a s")
        case True
        with wr have V: "V \<le> bestScore r" by (simp add: within_window_def)
        from True h have "bestScore r \<le> s" and "a < s" by (auto simp: max_def split: if_splits)
        moreover from er have "s \<le> bestScore r" by (auto split: if_splits)
        ultimately have "bestScore r = cv m" using exact by auto
        with V show ?thesis by (simp add: max_def)
      next
        case False
        then have "max a s < bestScore r" by (simp only: not_le)
        with wr h have "bestScore r = V" by (simp add: within_window_def)
        moreover from False vs have "cv m \<le> bestScore r" by (auto simp: max_def split: if_splits)
        ultimately show ?thesis by (simp add: max_absorb2)
      qed
    next
      assume "b \<le> bestScore r"
      with wr have "bestScore r \<le> V" by (simp add: within_window_def)
      then show "bestScore r \<le> max (cv m) V" by (simp add: le_max_iff_disj)
    qed
    moreover from er have "ev \<le> bestScore r" by (auto split: if_splits)
    moreover from False r have "max_loop E g d a b (m # ms) ev best = Some (r, g)"
      unfolding s_def by (simp add: step)
    ultimately show ?thesis
      unfolding total by simp
  qed
qed

lemma min_loop_exact:
  "\<forall>m \<in> set ms. child_exact E g d True cv m \<Longrightarrow> a < b \<Longrightarrow> b \<le> ev \<Longrightarrow>
   \<exists>res. min_loop E g d a b ms ev best = Some (res, g) \<and>
     within_window a b (fold min (map cv ms) PosInf) (bestScore res) \<and> bestScore res \<le> ev"
proof (induction ms arbitrary: b ev best)
  case Nil
  then show ?case by (auto simp: within_window_def)
next
  case (Cons m ms)
  from Cons.prems(1) obtain g1 where g1: "game_move E g m = Some g1" "game_undo E g1 = g"
    and ch: "\<forall>a b. a < b \<longrightarrow> (\<exists>res. minimax E g1 d a b True = Some (res, g1) \<and>
             within_window a b (cv m) (bestScore res))"
    by (auto simp: child_exact_def)
  from ch Cons.prems(2) obtain res where res: "minimax E g1 d a b True = Some (res, g1)"
    and w: "within_window a b (cv m) (bestScore res)" by blast
  note step = min_loop_step [OF g1(1) res g1(2)]
  define s where "s = bestScore res"
  define V where "V = fold min (map cv ms) PosInf"
  have total: "fold min (map cv (m # ms)) PosInf = min (cv m) V"
    by (simp only: list.map fold_min_Cons V_def)
  let ?ev = "if s < ev then s else ev"
  let ?best = "if s < ev then Some m else best"
  show ?case
  proof (cases "min b s \<le> a")
    case True
    with Cons.prems(2) have sa: "s \<le> a" by (simp add: min_def split: if_splits)
    with Cons.prems have "s < ev" by auto
    moreover from w sa have "cv m \<le> s" by (simp add: within_window_def s_def)
    ultimately have ww: "within_window a b (min (cv m) V) s" and es: "s \<le> ev"
      using sa Cons.prems(2) by (auto simp: within_window_def min_def)
    from True \<open>s < ev\<close>
    have "min_loop E g d a b (m # ms) ev best = Some (\<lparr>bestMove = Some m, bestScore = s\<rparr>, g)"
      unfolding s_def by (simp add: step)
    with ww es show ?thesis
      unfolding total by simp
  next
    case False
    then have ab: "a < min b s" by (simp only: not_le)
    have le: "min b s \<le> ?ev" using Cons.prems(3) by (auto simp: min_def)
    from Cons.prems(1) have "\<forall>m \<in> set ms. child_exact E g d True cv m" by simp
    from Cons.IH [OF this ab le, of ?best] obtain r where
      r: "min_loop E g d a (min b s) ms ?ev ?best = Some (r, g)"
      and wr: "within_window a (min b s) V (bestScore r)" and er: "bestScore r \<le> ?ev"
      by (auto simp: V_def)
    from ab have sa: "a < s" by simp
    with w have vs: "s \<le> cv m" and exact: "s < b \<longrightarrow> s = cv m"
      by (auto simp: within_window_def s_def)
    have "within_window a b (min (cv m) V) (bestScore r)"
      unfolding within_window_def
    proof (intro conjI impI)
      assume "bestScore r \<le> a"
      with wr have "V \<le> bestScore r" by (simp add: within_window_def)
      then show "min (cv m) V \<le> bestScore r" by (simp add: min_le_iff_disj)
    next
      assume h: "a < bestScore r \<and> bestScore r < b"
      show "bestScore r = min (cv m) V"
      proof (cases "min b s \<le> bestScore r")
        case True
        with wr have V: "bestScore r \<le> V" by (simp add: within_window_def)
        from True h have "s \<le> bestScore r" and "s < b" by (auto simp: min_def split: if_splits)
        moreover from er have "bestScore r \<le> s" by (auto split: if_splits)
        ultimately have "bestScore r = cv m" using exact by auto
        with V show ?thesis by (simp add: min_absorb1)
      next
        case False
        then have "bestScore r < min b s" by (simp only: not_le)
        with wr h have "bestScore r = V" by (simp add: within_window_def)
        moreover from False vs have "bestScore r \<le> cv m" by (auto simp: min_def split: if_splits)
        ultimately show ?thesis by (simp add: min_absorb2)
      qed
    next
      assume "b \<le> bestScore r"
      with wr have "bestScore r \<le> V" by (auto simp: within_window_def min_def split: if_splits)
      moreover from vs er have "bestScore r \<le> cv m" by (auto split: if_splits)
      ultimately show "bestScore r \<le> min (cv m) V" by simp
    qed
    moreover from er have "bestScore r \<le> ev" by (auto split: if_splits)
    moreover from False r have "min_loop E g d a b (m # ms) ev best = Some (r, g)"
      unfolding s_def by (simp add: step)
    ultimately show ?thesis
      unfolding total by simp
  qed
qed

lemma those_map_Some:
  "\<forall>x \<in> set xs. f x = Some (h x) \<Longrightarrow> those (map f xs) = Some (map h xs)"
  by (induction xs) simp_all

lemma fold_max_set: "fold max xs (a :: score) = Max (insert a (set xs))"
  using Max.set_eq_fold [of a xs] by simp

lemma fold_min_set: "fold min xs (a :: score) = Min (insert a (set xs))"
  using Min.set_eq_fold [of a xs] by simp

lemma fold_max_sort_moves:
  "fold max (map cv (sort_moves ms)) (a :: score) = fold max (map cv ms) a"
  by (simp add: fold_max_set set_sort_moves)

lemma fold_min_sort_moves:
  "fold min (map cv (sort_moves ms)) (a :: score) = fold min (map cv ms) a"
  by (simp add: fold_min_set set_sort_moves)

lemma minimax_exact:
  assumes ok: "rules_ok E I"
  shows "I g \<Longrightarrow> \<exists>v. spec_minimax E d mx g = Some v \<and>
    (\<forall>a b. a < b \<longrightarrow>
       (\<exists>res. minimax E g d a b mx = Some (res, g) \<and> within_window a b v (bestScore res)))"
proof (induction d arbitrary: g mx)
  case 0
  from ok 0 have "wf_board (game_board E g)" by (simp add: rules_ok_def)
  then obtain v where "evaluateBoard (game_board E g) = Some v"
    using evaluateBoard_Some by blast
  then show ?case by (simp add: minimax_leaf within_window_def)
next
  case (Suc d)
  show ?case
  proof (cases "game_isGameOver E g")
    case True
    from ok Suc.prems have "wf_board (game_board E g)" by (simp add: rules_ok_def)
    then obtain v where "evaluateBoard (game_board E g) = Some v"
      using evaluateBoard_Some by blast
    with True show ?thesis by (simp add: minimax_leaf within_window_def)
  next
    case False
    define f where "f = (\<lambda>m. do { g' \<leftarrow> game_move E g m; spec_minimax E d (\<not> mx) g' })"
    define cv where "cv = (\<lambda>m. the (f m))"
    have ch: "\<forall>m \<in> set (game_moves E g). child_exact E g d (\<not> mx) cv m"
    proof
      fix m assume "m \<in> set (game_moves E g)"
      with ok Suc.prems obtain g1 where g1: "game_move E g m = Some g1" "game_undo E g1 = g" "I g1"
        unfolding rules_ok_def by blast
      from Suc.IH [OF g1(3), of "\<not> mx"] obtain v where v: "spec_minimax E d (\<not> mx) g1 = Some v"
        and w: "\<forall>a b. a < b \<longrightarrow>
          (\<exists>res. minimax E g1 d a b (\<not> mx) = Some (res, g1) \<and> within_window a b v (bestScore res))"
        by blast
      from g1 v have "cv m = v" by (simp add: cv_def f_def)
      with g1 v w show "child_exact E g d (\<not> mx) cv m"
        unfolding child_exact_def by blast
    qed
    then have "\<forall>m \<in> set (game_moves E g). f m = Some (cv m)"
      by (auto simp: child_exact_def f_def)
    then have vs: "those (map f (game_moves E g)) = Some (map cv (game_moves E g))"
      by (rule those_map_Some)
    from ch have chs: "\<forall>m \<in> set (sort_moves (game_moves E g)). child_exact E g d (\<not> mx) cv m"
      by (simp add: set_sort_moves)
    show ?thesis
    proof (cases mx)
      case True
      with False vs have sv: "spec_minimax E (Suc d) mx g =
          Some (fold max (map cv (game_moves E g)) NegInf)"
        by (simp add: f_def)
      have "\<forall>a b. a < b \<longrightarrow>
        (\<exists>res. minimax E g (Suc d) a b mx = Some (res, g) \<and>
           within_window a b (fold max (map cv (game_moves E g)) NegInf) (bestScore res))"
      proof (intro allI impI)
        fix a b :: score assume ab: "a < b"
        from chs True have "\<forall>m \<in> set (sort_moves (game_moves E g)). child_exact E g d False cv m"
          by simp
        from max_loop_exact [OF this ab, of NegInf None] False True
        show "\<exists>res. minimax E g (Suc d) a b mx = Some (res, g) \<and>
           within_window a b (fold max (map cv (game_moves E g)) NegInf) (bestScore res)"
          by (auto simp: minimax_node fold_max_sort_moves)
      qed
      with sv show ?thesis by blast
    next
      case mn: False
      with False vs have sv: "spec_minimax E (Suc d) mx g =
          Some (fold min (map cv (game_moves E g)) PosInf)"
        by (simp add: f_def)
      have "\<forall>a b. a < b \<longrightarrow>
        (\<exists>res. minimax E g (Suc d) a b mx = Some (res, g) \<and>
           within_window a b (fold min (map cv (game_moves E g)) PosInf) (bestScore res))"
      proof (intro allI impI)
        fix a b :: score assume ab: "a < b"
        from chs mn have "\<forall>m \<in> set (sort_moves (game_moves E g)). child_exact E g d True cv m"
          by simp
        from min_loop_exact [OF this ab, of PosInf None] False mn
        show "\<exists>res. minimax E g (Suc d) a b mx = Some (res, g) \<and>
           within_window a b (fold min (map cv (game_moves E g)) PosInf) (bestScore res)"
          by (auto simp: minimax_node fold_min_sort_moves)
      qed
      with sv show ?thesis by blast
    qed
  qed
qed

subsection \<open>The top-level call\<close>

lemma random_index_less:
  assumes "0 \<le> r" and "r < 1" and "n \<noteq> 0"
  shows "0 \<le> \<lfloor>r * real n\<rfloor> \<and> \<lfloor>r * real n\<rfloor> < int n \<and> nat \<lfloor>r * real n\<rfloor> < n"
proof -
  from assms have "r * real n < real n" by simp
  then have "\<lfloor>r * real n\<rfloor> < int n" by (simp add: floor_less_iff)
  moreover from assms have "0 \<le> \<lfloor>r * real n\<rfloor>" by simp
  ultimately show ?thesis by (simp add: nat_less_iff)
qed

lemma getBestMove_empty:
  "game_moves E g = [] \<Longrightarrow> getBestMove E r g difficulty = Some (None, g)"
  by (simp add: getBestMove_def)

lemma getBestMove_easy:
  assumes "game_moves E g \<noteq> []" and "0 \<le> r" and "r < 1"
  shows "getBestMove E r g Easy =
    Some (Some (game_moves E g ! nat \<lfloor>r * real (length (game_moves E g))\<rfloor>), g)"
  using assms random_index_less [of r "length (game_moves E g)"]
  by (simp add: getBestMove_def Let_def)

lemma getBestMove_search:
  assumes "game_moves E g \<noteq> []" and "difficulty \<noteq> Easy"
    and "minimax E g (if difficulty = Medium then 2 else 3) NegInf PosInf
           (game_turn E g = White) = Some (res, g')"
  shows "getBestMove E r g difficulty =
    Some (case bestMove res of Some m \<Rightarrow> Some m | None \<Rightarrow> Some (game_moves E g ! 0), g')"
  using assms by (simp add: getBestMove_def Let_def)

lemma window_all: "within_window NegInf PosInf v r \<Longrightarrow> r = v"
proof -
  assume w: "within_window NegInf PosInf v r"
  show ?thesis
  proof (cases r)
    case NegInf
    with w have "v \<le> NegInf" by (simp add: within_window_def)
    with NegInf show ?thesis by (cases v) simp_all
  next
    case (Fin x)
    with w show ?thesis by (simp add: within_window_def Fin_gt_NegInf Fin_lt_PosInf)
  next
    case PosInf
    with w have "PosInf \<le> v" by (simp add: within_window_def)
    with PosInf show ?thesis by (cases v) simp_all
  qed
qed

lemma NegInf_less_PosInf: "NegInf < PosInf"
  by (simp add: less_score_def)

subsection \<open>The best-score update\<close>

lemma max_loop_keeps_first:
  "max_loop E g d a b ms ev best = Some (res, g') \<Longrightarrow>
   ev \<le> bestScore res \<and> (bestScore res = ev \<longrightarrow> bestMove res = best)"
proof (induction ms arbitrary: g a ev best)
  case Nil
  then show ?case by auto
next
  case (Cons m ms)
  from Cons.prems obtain g1 r where g1: "game_move E g m = Some g1"
    and r: "minimax E g1 d a b False = Some r"
    by (auto simp: max_loop.simps(2) split: bind_splits)
  define s where "s = bestScore (fst r)"
  let ?ev = "if s > ev then s else ev"
  let ?best = "if s > ev then Some m else best"
  have ev: "ev \<le> ?ev" by auto
  show ?case
  proof (cases "b \<le> max a s")
    case True
    with Cons.prems g1 r have "res = \<lparr>bestMove = ?best, bestScore = ?ev\<rparr>"
      by (auto simp: max_loop.simps(2) Let_def s_def)
    then show ?thesis by auto
  next
    case False
    with Cons.prems g1 r
    have "max_loop E (game_undo E (snd r)) d (max a s) b ms ?ev ?best = Some (res, g')"
      by (auto simp: max_loop.simps(2) Let_def s_def split: if_splits)
    from Cons.IH [OF this]
    have ih: "?ev \<le> bestScore res" "bestScore res = ?ev \<longrightarrow> bestMove res = ?best"
      by simp_all
    from ih(1) ev have le: "ev \<le> bestScore res" by (rule order_trans [rotated])
    moreover have "bestScore res = ev \<longrightarrow> bestMove res = best"
    proof
      assume eq: "bestScore res = ev"
      with ih(1) have "\<not> s > ev" by (auto split: if_splits)
      with ih(2) eq show "bestMove res = best" by simp
    qed
    ultimately show ?thesis by simp
  qed
qed

lemma min_loop_keeps_first:
  "min_loop E g d a b ms ev best = Some (res, g') \<Longrightarrow>
   bestScore res \<le> ev \<and> (bestScore res = ev \<longrightarrow> bestMove res = best)"
proof (induction ms arbitrary: g b ev best)
  case Nil
  then show ?case by auto
next
  case (Cons m ms)
  from Cons.prems obtain g1 r where g1: "game_move E g m = Some g1"
    and r: "minimax E g1 d a b True = Some r"
    by (auto simp: min_loop.simps(2) split: bind_splits)
  define s where "s = bestScore (fst r)"
  let ?ev = "if s < ev then s else ev"
  let ?best = "if s < ev then Some m else best"
  have ev: "?ev \<le> ev" by auto
  show ?case
  proof (cases "min b s \<le> a")
    case True
    with Cons.prems g1 r have "res = \<lparr>bestMove = ?best, bestScore = ?ev\<rparr>"
      by (auto simp: min_loop.simps(2) Let_def s_def)
    then show ?thesis by auto
  next
    case False
    with Cons.prems g1 r
    have "min_loop E (game_undo E (snd r)) d a (min b s) ms ?ev ?best = Some (res, g')"
      by (auto simp: min_loop.simps(2) Let_def s_def split: if_splits)
    from Cons.IH [OF this]
    have ih: "bestScore res \<le> ?ev" "bestScore res = ?ev \<longrightarrow> bestMove res = ?best"
      by simp_all
    from ih(1) ev have le: "bestScore res \<le> ev" by (rule order_trans)
    moreover have "bestScore res = ev \<longrightarrow> bestMove res = best"
    proof
      assume eq: "bestScore res = ev"
      with ih(1) have "\<not> s < ev" by (auto split: if_splits)
      with ih(2) eq show "bestMove res = best" by simp
    qed
    ultimately show ?thesis by simp
  qed
qed

subsection \<open>The value of one line\<close>

lemma those_member:
  "those (map f xs) = Some vs \<Longrightarrow> x \<in> set xs \<Longrightarrow> \<exists>v. f x = Some v \<and> v \<in> set vs"
proof (induction xs arbitrary: vs)
  case Nil
  then show ?case by simp
next
  case (Cons y ys)
  from Cons.prems(1) obtain v ws where fy: "f y = Some v" and ws: "those (map f ys) = Some ws"
    and vs: "vs = v # ws"
    by (auto split: option.splits)
  show ?case
  proof (cases "x = y")
    case True
    with fy vs show ?thesis by simp
  next
    case False
    with Cons.prems(2) have "x \<in> set ys" by simp
    from Cons.IH [OF ws this] vs show ?thesis by auto
  qed
qed

lemma spec_minimax_child:
  assumes "spec_minimax E (Suc d) mx g = Some V" and "\<not> game_isGameOver E g"
    and "m \<in> set (game_moves E g)" and "game_move E g m = Some g1"
    and "spec_minimax E d (\<not> mx) g1 = Some x"
  shows "if mx then x \<le> V else V \<le> x"
proof -
  let ?f = "\<lambda>m. do { g' \<leftarrow> game_move E g m; spec_minimax E d (\<not> mx) g' }"
  from assms(1,2) obtain vs where vs: "those (map ?f (game_moves E g)) = Some vs"
    and V: "V = (if mx then fold max vs NegInf else fold min vs PosInf)"
    by (auto split: bind_splits)
  from those_member [OF vs assms(3)] assms(4,5) have x: "x \<in> set vs" by simp
  show ?thesis
  proof (cases mx)
    case True
    with V have "V = Max (insert NegInf (set vs))" by (simp add: fold_max_set)
    with x True show ?thesis by simp
  next
    case False
    with V have "V = Min (insert PosInf (set vs))" by (simp add: fold_min_set)
    with x False show ?thesis by simp
  qed
qed

subsection \<open>The move selected at the root\<close>

lemma children_exact:
  assumes ok: "rules_ok E I" and g: "I g"
  shows "\<exists>cv. \<forall>m \<in> set (game_moves E g). child_exact E g d mx cv m"
proof -
  define cv where "cv = (\<lambda>m. the (do { g' \<leftarrow> game_move E g m; spec_minimax E d mx g' }))"
  have "\<forall>m \<in> set (game_moves E g). child_exact E g d mx cv m"
  proof
    fix m assume "m \<in> set (game_moves E g)"
    with ok g obtain g1 where g1: "game_move E g m = Some g1" "game_undo E g1 = g" "I g1"
      unfolding rules_ok_def by blast
    from minimax_exact [OF ok g1(3), of d mx] obtain v where v: "spec_minimax E d mx g1 = Some v"
      and w: "\<forall>a b. a < b \<longrightarrow>
        (\<exists>res. minimax E g1 d a b mx = Some (res, g1) \<and> within_window a b v (bestScore res))"
      by blast
    from g1 v have "cv m = v" by (simp add: cv_def)
    with g1 v w show "child_exact E g d mx cv m"
      unfolding child_exact_def by blast
  qed
  then show ?thesis by blast
qed

lemma max_loop_selects:
  "\<forall>m \<in> set ms. child_exact E g d False cv m \<Longrightarrow> a < PosInf \<Longrightarrow>
   \<exists>res. max_loop E g d a PosInf ms a best = Some (res, g) \<and>
     ((bestMove res = best \<and> bestScore res = a) \<or>
      (\<exists>m \<in> set ms. bestMove res = Some m \<and> cv m = bestScore res))"
proof (induction ms arbitrary: a best)
  case Nil
  then show ?case by simp
next
  case (Cons m ms)
  from Cons.prems(1) obtain g1 where g1: "game_move E g m = Some g1" "game_undo E g1 = g"
    and ch: "\<forall>a b. a < b \<longrightarrow> (\<exists>res. minimax E g1 d a b False = Some (res, g1) \<and>
             within_window a b (cv m) (bestScore res))"
    by (auto simp: child_exact_def)
  from ch Cons.prems(2) obtain res where res: "minimax E g1 d a PosInf False = Some (res, g1)"
    and w: "within_window a PosInf (cv m) (bestScore res)" by blast
  note step = max_loop_step [OF g1(1) res g1(2)]
  define s where "s = bestScore res"
  show ?case
  proof (cases "PosInf \<le> max a s")
    case True
    with Cons.prems(2) have sb: "PosInf \<le> s" by (simp add: max_def split: if_splits)
    with Cons.prems(2) have "a < s" by auto
    moreover from w sb have "s \<le> cv m" by (simp add: within_window_def s_def)
    with sb have "cv m = s" by (cases "cv m"; cases s) simp_all
    moreover from True \<open>a < s\<close>
    have "max_loop E g d a PosInf (m # ms) a best = Some (\<lparr>bestMove = Some m, bestScore = s\<rparr>, g)"
      unfolding s_def by (simp add: step)
    ultimately show ?thesis by simp
  next
    case False
    then have ab: "max a s < PosInf" by (simp only: not_le)
    have ev: "(if s > a then s else a) = max a s" by (auto simp: max_def)
    from Cons.prems(1) have "\<forall>m \<in> set ms. child_exact E g d False cv m" by simp
    from Cons.IH [OF this ab, of "if s > a then Some m else best"] obtain r where
      r: "max_loop E g d (max a s) PosInf ms (max a s) (if s > a then Some m else best) = Some (r, g)"
      and sel: "(bestMove r = (if s > a then Some m else best) \<and> bestScore r = max a s) \<or>
        (\<exists>m \<in> set ms. bestMove r = Some m \<and> cv m = bestScore r)"
      by blast
    from False r have call: "max_loop E g d a PosInf (m # ms) a best = Some (r, g)"
      unfolding s_def by (simp add: step ev [unfolded s_def])
    from ab have sb: "s < PosInf" by simp
    with w have exact: "a < s \<longrightarrow> s = cv m"
      by (auto simp: within_window_def s_def)
    from sel show ?thesis
    proof
      assume h: "bestMove r = (if s > a then Some m else best) \<and> bestScore r = max a s"
      show ?thesis
      proof (cases "s > a")
        case True
        with h exact have "bestMove r = Some m" and "cv m = bestScore r"
          by (auto simp: max_def)
        with call show ?thesis by simp
      next
        case False
        with h have "bestMove r = best" and "bestScore r = a" by (auto simp: max_def)
        with call show ?thesis by simp
      qed
    next
      assume "\<exists>m \<in> set ms. bestMove r = Some m \<and> cv m = bestScore r"
      with call show ?thesis by auto
    qed
  qed
qed

lemma min_loop_selects:
  "\<forall>m \<in> set ms. child_exact E g d True cv m \<Longrightarrow> NegInf < b \<Longrightarrow>
   \<exists>res. min_loop E g d NegInf b ms b best = Some (res, g) \<and>
     ((bestMove res = best \<and> bestScore res = b) \<or>
      (\<exists>m \<in> set ms. bestMove res = Some m \<and> cv m = bestScore res))"
proof (induction ms arbitrary: b best)
  case Nil
  then show ?case by simp
next
  case (Cons m ms)
  from Cons.prems(1) obtain g1 where g1: "game_move E g m = Some g1" "game_undo E g1 = g"
    and ch: "\<forall>a b. a < b \<longrightarrow> (\<exists>res. minimax E g1 d a b True = Some (res, g1) \<and>
             within_window a b (cv m) (bestScore res))"
    by (auto simp: child_exact_def)
  from ch Cons.prems(2) obtain res where res: "minimax E g1 d NegInf b True = Some (res, g1)"
    and w: "within_window NegInf b (cv m) (bestScore res)" by blast
  note step = min_loop_step [OF g1(1) res g1(2)]
  define s where "s = bestScore res"
  show ?case
  proof (cases "min b s \<le> NegInf")
    case True
    with Cons.prems(2) have sb: "s \<le> NegInf" by (simp add: min_def split: if_splits)
    with Cons.prems(2) have "s < b" by auto
    moreover from w sb have "cv m \<le> s" by (simp add: within_window_def s_def)
    with sb have "cv m = s" by (cases "cv m"; cases s) simp_all
    moreover from True \<open>s < b\<close>
    have "min_loop E g d NegInf b (m # ms) b best = Some (\<lparr>bestMove = Some m, bestScore = s\<rparr>, g)"
      unfolding s_def by (simp add: step)
    ultimately show ?thesis by simp
  next
    case False
    then have ab: "NegInf < min b s" by (simp only: not_le)
    have ev: "(if s < b then s else b) = min b s" by (auto simp: min_def)
    from Cons.prems(1) have "\<forall>m \<in> set ms. child_exact E g d True cv m" by simp
    from Cons.IH [OF this ab, of "if s < b then Some m else best"] obtain r where
      r: "min_loop E g d NegInf (min b s) ms (min b s) (if s < b then Some m else best) = Some (r, g)"
      and sel: "(bestMove r = (if s < b then Some m else best) \<and> bestScore r = min b s) \<or>
        (\<exists>m \<in> set ms. bestMove r = Some m \<and> cv m = bestScore r)"
      by blast
    from False r have call: "min_loop E g d NegInf b (m # ms) b best = Some (r, g)"
      unfolding s_def by (simp add: step ev [unfolded s_def])
    from ab have sb: "NegInf < s" by simp
    with w have exact: "s < b \<longrightarrow> s = cv m"
      by (auto simp: within_window_def s_def)
    from sel show ?thesis
    proof
      assume h: "bestMove r = (if s < b then Some m else best) \<and> bestScore r = min b s"
      show ?thesis
      proof (cases "s < b")
        case True
        with h exact have "bestMove r = Some m" and "cv m = bestScore r"
          by (auto simp: min_def)
        with call show ?thesis by simp
      next
        case False
        with h have "bestMove r = best" and "bestScore r = b" by (auto simp: min_def)
        with call show ?thesis by simp
      qed
    next
      assume "\<exists>m \<in> set ms. bestMove r = Some m \<and> cv m = bestScore r"
      with call show ?thesis by auto
    qed
  qed
qed

lemma root_selects:
  assumes ok: "rules_ok E I" and g: "I g"
  shows "\<exists>res. minimax E g (Suc d) NegInf PosInf mx = Some (res, g)
    \<and> spec_minimax E (Suc d) mx g = Some (bestScore res)
    \<and> (\<forall>m. bestMove res = Some m \<longrightarrow> m \<in> set (game_moves E g)
         \<and> (\<exists>g1. game_move E g m = Some g1
              \<and> spec_minimax E d (\<not> mx) g1 = Some (bestScore res)))"
proof -
  from minimax_exact [OF ok g, of "Suc d" mx] obtain V res
    where V: "spec_minimax E (Suc d) mx g = Some V"
      and res: "minimax E g (Suc d) NegInf PosInf mx = Some (res, g)"
      and w: "within_window NegInf PosInf V (bestScore res)"
    using NegInf_less_PosInf by blast
  from window_all [OF w] V have val: "spec_minimax E (Suc d) mx g = Some (bestScore res)" by simp
  have "\<forall>m. bestMove res = Some m \<longrightarrow> m \<in> set (game_moves E g)
         \<and> (\<exists>g1. game_move E g m = Some g1
              \<and> spec_minimax E d (\<not> mx) g1 = Some (bestScore res))"
  proof (cases "game_isGameOver E g")
    case True
    from ok g have "wf_board (game_board E g)" by (simp add: rules_ok_def)
    then obtain v where "evaluateBoard (game_board E g) = Some v"
      using evaluateBoard_Some by blast
    with True res have "bestMove res = None" by (auto simp: minimax_leaf)
    then show ?thesis by simp
  next
    case False
    from children_exact [OF ok g, of d "\<not> mx"] obtain cv
      where ch: "\<forall>m \<in> set (game_moves E g). child_exact E g d (\<not> mx) cv m" by blast
    then have chs: "\<forall>m \<in> set (sort_moves (game_moves E g)). child_exact E g d (\<not> mx) cv m"
      by (simp add: set_sort_moves)
    have sel: "bestMove res = None \<or>
      (\<exists>m \<in> set (game_moves E g). bestMove res = Some m \<and> cv m = bestScore res)"
    proof (cases mx)
      case True
      with chs have "\<forall>m \<in> set (sort_moves (game_moves E g)). child_exact E g d False cv m"
        by simp
      from max_loop_selects [OF this NegInf_less_PosInf, of None] False True res
      show ?thesis by (auto simp: minimax_node set_sort_moves)
    next
      case mn: False
      with chs have "\<forall>m \<in> set (sort_moves (game_moves E g)). child_exact E g d True cv m"
        by simp
      from min_loop_selects [OF this NegInf_less_PosInf, of None] False mn res
      show ?thesis by (auto simp: minimax_node set_sort_moves)
    qed
    show ?thesis
    proof (intro allI impI)
      fix m assume m: "bestMove res = Some m"
      with sel have mem: "m \<in> set (game_moves E g)" and cv: "cv m = bestScore res" by auto
      from ch mem obtain g1 where "game_move E g m = Some g1"
        and "spec_minimax E d (\<not> mx) g1 = Some (cv m)"
        unfolding child_exact_def by blast
      with mem cv show "m \<in> set (game_moves E g)
         \<and> (\<exists>g1. game_move E g m = Some g1
              \<and> spec_minimax E d (\<not> mx) g1 = Some (bestScore res))" by simp
    qed
  qed
  with res val show ?thesis by blast
qed

subsection \<open>States that the rules engine does not tell apart\<close>

lemma max_loop_same:
  "\<forall>m \<in> set ms. child_same E g h d m \<Longrightarrow>
   \<exists>res. max_loop E g d a b ms ev best = Some (res, g) \<and>
     max_loop E h d a b ms ev best = Some (res, h)"
proof (induction ms arbitrary: a ev best)
  case Nil
  then show ?case by simp
next
  case (Cons m ms)
  from Cons.prems obtain g1 h1 where g1: "game_move E g m = Some g1" "game_undo E g1 = g"
    and h1: "game_move E h m = Some h1" "game_undo E h1 = h"
    and ch: "\<forall>a b mx. \<exists>res. minimax E g1 d a b mx = Some (res, g1) \<and>
          minimax E h1 d a b mx = Some (res, h1)"
    unfolding child_same_def by auto
  from ch obtain res where res: "minimax E g1 d a b False = Some (res, g1)"
    "minimax E h1 d a b False = Some (res, h1)" by blast
  note stepg = max_loop_step [OF g1(1) res(1) g1(2)]
  note steph = max_loop_step [OF h1(1) res(2) h1(2)]
  show ?case
  proof (cases "b \<le> max a (bestScore res)")
    case True
    then show ?thesis by (simp add: stepg steph)
  next
    case False
    from Cons.prems have "\<forall>m \<in> set ms. child_same E g h d m" by simp
    from Cons.IH [OF this] False show ?thesis by (simp add: stepg steph)
  qed
qed

lemma min_loop_same:
  "\<forall>m \<in> set ms. child_same E g h d m \<Longrightarrow>
   \<exists>res. min_loop E g d a b ms ev best = Some (res, g) \<and>
     min_loop E h d a b ms ev best = Some (res, h)"
proof (induction ms arbitrary: b ev best)
  case Nil
  then show ?case by simp
next
  case (Cons m ms)
  from Cons.prems obtain g1 h1 where g1: "game_move E g m = Some g1" "game_undo E g1 = g"
    and h1: "game_move E h m = Some h1" "game_undo E h1 = h"
    and ch: "\<forall>a b mx. \<exists>res. minimax E g1 d a b mx = Some (res, g1) \<and>
          minimax E h1 d a b mx = Some (res, h1)"
    unfolding child_same_def by auto
  from ch obtain res where res: "minimax E g1 d a b True = Some (res, g1)"
    "minimax E h1 d a b True = Some (res, h1)" by blast
  note stepg = min_loop_step [OF g1(1) res(1) g1(2)]
  note steph = min_loop_step [OF h1(1) res(2) h1(2)]
  show ?case
  proof (cases "min b (bestScore res) \<le> a")
    case True
    then show ?thesis by (simp add: stepg steph)
  next
    case False
    from Cons.prems have "\<forall>m \<in> set ms. child_same E g h d m" by simp
    from Cons.IH [OF this] False show ?thesis by (simp add: stepg steph)
  qed
qed

lemma minimax_same:
  assumes ok: "rules_ok E I" and same: "same_answers E I R"
  shows "I g \<Longrightarrow> I h \<Longrightarrow> R g h \<Longrightarrow>
    \<exists>res. minimax E g d a b mx = Some (res, g) \<and> minimax E h d a b mx = Some (res, h)"
proof (induction d arbitrary: g h a b mx)
  case 0
  from same 0 have board: "game_board E g = game_board E h"
    unfolding same_answers_def by blast
  from ok 0 have "wf_board (game_board E g)" by (simp add: rules_ok_def)
  then obtain v where "evaluateBoard (game_board E g) = Some v"
    using evaluateBoard_Some by blast
  with board show ?case by (simp add: minimax_leaf)
next
  case (Suc d)
  from same Suc.prems have board: "game_board E g = game_board E h"
    and over: "game_isGameOver E g = game_isGameOver E h"
    and moves: "game_moves E g = game_moves E h"
    and next_same: "\<forall>m \<in> set (game_moves E g). \<forall>g' h'.
          game_move E g m = Some g' \<and> game_move E h m = Some h' \<longrightarrow> R g' h'"
    unfolding same_answers_def by blast+
  show ?case
  proof (cases "game_isGameOver E g")
    case True
    from ok Suc.prems have "wf_board (game_board E g)" by (simp add: rules_ok_def)
    then obtain v where "evaluateBoard (game_board E g) = Some v"
      using evaluateBoard_Some by blast
    with True board over show ?thesis by (simp add: minimax_leaf)
  next
    case False
    have ch: "\<forall>m \<in> set (sort_moves (game_moves E g)). child_same E g h d m"
    proof
      fix m assume "m \<in> set (sort_moves (game_moves E g))"
      then have m: "m \<in> set (game_moves E g)" by (simp add: set_sort_moves)
      with ok Suc.prems(1) obtain g1 where g1: "game_move E g m = Some g1" "game_undo E g1 = g" "I g1"
        unfolding rules_ok_def by blast
      from m moves have "m \<in> set (game_moves E h)" by simp
      with ok Suc.prems(2) obtain h1 where h1: "game_move E h m = Some h1" "game_undo E h1 = h" "I h1"
        unfolding rules_ok_def by blast
      from next_same m g1(1) h1(1) have "R g1 h1" by blast
      from Suc.IH [OF g1(3) h1(3) this]
      have "\<forall>a b mx. \<exists>res. minimax E g1 d a b mx = Some (res, g1) \<and>
          minimax E h1 d a b mx = Some (res, h1)" by blast
      with g1 h1 show "child_same E g h d m"
        unfolding child_same_def by blast
    qed
    from False over have overh: "\<not> game_isGameOver E h" by simp
    show ?thesis
    proof (cases mx)
      case True
      from max_loop_same [OF ch, of a b NegInf None] False overh True moves
      show ?thesis by (simp add: minimax_node)
    next
      case mn: False
      from min_loop_same [OF ch, of a b PosInf None] False overh mn moves
      show ?thesis by (simp add: minimax_node)
    qed
  qed
qed

lemma getBestMove_same:
  assumes ok: "rules_ok E I" and same: "same_answers E I R"
    and g: "I g" and h: "I h" and r: "R g h" and diff: "difficulty \<noteq> Easy"
  shows "\<exists>mv. getBestMove E random1 g difficulty = Some (mv, g)
    \<and> getBestMove E random2 h difficulty = Some (mv, h)"
proof (cases "game_moves E g = []")
  case True
  moreover from same g h r have moves: "game_moves E g = game_moves E h"
    unfolding same_answers_def by blast
  ultimately show ?thesis by (simp add: getBestMove_empty)
next
  case False
  from same g h r have moves: "game_moves E g = game_moves E h"
    and turn: "game_turn E g = game_turn E h"
    unfolding same_answers_def by blast+
  from minimax_same [OF ok same g h r] obtain res
    where mg: "minimax E g (if difficulty = Medium then 2 else 3) NegInf PosInf
           (game_turn E g = White) = Some (res, g)"
      and mh: "minimax E h (if difficulty = Medium then 2 else 3) NegInf PosInf
           (game_turn E g = White) = Some (res, h)" by blast
  from mh have mh': "minimax E h (if difficulty = Medium then 2 else 3) NegInf PosInf
           (game_turn E h = White) = Some (res, h)" by (simp only: turn)
  from False have neh: "game_moves E h \<noteq> []" by (simp only: moves) simp
  have "getBestMove E random2 h difficulty =
      Some (case bestMove res of Some m \<Rightarrow> Some m | None \<Rightarrow> Some (game_moves E h ! 0), h)"
    by (rule getBestMove_search [OF neh diff mh'])
  then have "getBestMove E random2 h difficulty =
      Some (case bestMove res of Some m \<Rightarrow> Some m | None \<Rightarrow> Some (game_moves E g ! 0), h)"
    by (simp only: moves)
  with getBestMove_search [OF False diff mg, of random1] show ?thesis by blast
qed

section \<open>Properties of the example rules engine\<close>

lemma wf_sq_put: "wf_board b \<Longrightarrow> wf_board (sq_put b s v)"
proof -
  assume wf: "wf_board b"
  then have len: "length b = 8" and rows: "\<forall>n < 8. length (b ! n) = 8"
    by (simp_all add: wf_board_def list_all_length)
  have "\<forall>n < 8. length (sq_put b s v ! n) = 8"
  proof (intro allI impI)
    fix n :: nat assume n: "n < 8"
    with rows have "length (b ! n) = 8" by blast
    moreover from rows n have "n = nat (fst s) \<Longrightarrow> length (b ! nat (fst s)) = 8" by blast
    ultimately show "length (sq_put b s v ! n) = 8"
      using len n by (cases "n = nat (fst s)") (simp_all add: sq_put_def)
  qed
  with len show ?thesis
    by (simp add: wf_board_def list_all_length sq_put_def)
qed

lemma wf_apply_move: "wf_board b \<Longrightarrow> wf_board (apply_move b m)"
  by (simp add: apply_move_def wf_sq_put)

lemma chess_move_undo:
  assumes "m \<in> set (game_moves chess g)"
  shows "\<exists>x. chess_move g m =
      Some \<lparr>pos_board = apply_move (pos_board g) x, pos_turn = other (pos_turn g),
            pos_halfmoves = next_halfmoves (pos_halfmoves g) x,
            pos_history = (pos_board g, pos_turn g, pos_halfmoves g) # pos_history g\<rparr>"
proof -
  let ?P = "\<lambda>x. from_sq x = from_sq m \<and> to_sq x = to_sq m \<and> promotion x = promotion m"
  from assms have "m \<in> set (legal_moves (pos_board g) (pos_turn g))"
    by (simp add: chess_def)
  then have "\<exists>x \<in> set (legal_moves (pos_board g) (pos_turn g)). ?P x" by blast
  then obtain x where "find ?P (legal_moves (pos_board g) (pos_turn g)) = Some x"
    by (cases "find ?P (legal_moves (pos_board g) (pos_turn g))") (auto simp: find_None_iff)
  then show ?thesis by (auto simp: chess_move_def)
qed

lemma chess_rules_ok: "rules_ok chess (\<lambda>g. wf_board (pos_board g))"
  unfolding rules_ok_def
proof (intro allI impI conjI ballI)
  fix g :: position assume "wf_board (pos_board g)"
  then show "wf_board (game_board chess g)" by (simp add: chess_def)
next
  fix g :: position and m assume wf: "wf_board (pos_board g)" and m: "m \<in> set (game_moves chess g)"
  from chess_move_undo [OF m] obtain x where
    x: "chess_move g m =
      Some \<lparr>pos_board = apply_move (pos_board g) x, pos_turn = other (pos_turn g),
            pos_halfmoves = next_halfmoves (pos_halfmoves g) x,
            pos_history = (pos_board g, pos_turn g, pos_halfmoves g) # pos_history g\<rparr>" by blast
  let ?g' = "\<lparr>pos_board = apply_move (pos_board g) x, pos_turn = other (pos_turn g),
            pos_halfmoves = next_halfmoves (pos_halfmoves g) x,
            pos_history = (pos_board g, pos_turn g, pos_halfmoves g) # pos_history g\<rparr>"
  have "game_move chess g m = Some ?g'" using x by (simp add: chess_def)
  moreover have "game_undo chess ?g' = g" by (simp add: chess_def chess_undo_def)
  moreover have "wf_board (pos_board ?g')" using wf by (simp add: wf_apply_move)
  ultimately show "\<exists>g'. game_move chess g m = Some g' \<and> game_undo chess g' = g \<and>
      wf_board (pos_board g')" by blast
qed

lemma chess_no_dead_end: "no_dead_end chess I"
  by (simp add: no_dead_end_def chess_def chess_isGameOver_def)

lemma chess_same_answers: "same_answers chess I same_position"
  unfolding same_answers_def
proof (intro allI impI)
  fix g h :: position assume "I g \<and> I h \<and> same_position g h"
  then have eq: "pos_board g = pos_board h" "pos_turn g = pos_turn h"
    "pos_halfmoves g = pos_halfmoves h" by (simp_all add: same_position_def)
  have "\<forall>m \<in> set (game_moves chess g). \<forall>g' h'.
          game_move chess g m = Some g' \<and> game_move chess h m = Some h' \<longrightarrow> same_position g' h'"
    using eq by (auto simp: chess_def chess_move_def same_position_def split: option.splits)
  with eq show "game_moves chess g = game_moves chess h \<and>
       game_isGameOver chess g = game_isGameOver chess h \<and>
       game_turn chess g = game_turn chess h \<and>
       game_board chess g = game_board chess h \<and>
       (\<forall>m \<in> set (game_moves chess g). \<forall>g' h'.
          game_move chess g m = Some g' \<and> game_move chess h m = Some h' \<longrightarrow> same_position g' h')"
    by (simp add: chess_def chess_isGameOver_def)
qed

section \<open>The example positions, evaluated\<close>

lemma wf_mate: "wf_board (pos_board mate_position)"
  by code_simp


lemma wf_kings: "wf_board (pos_board kings_position)"
  by code_simp

lemma mate_moves:
  "game_moves chess mate_position =
    [\<lparr>mcolor = White, from_sq = (1, 5), to_sq = (0, 4), piece = King, captured = None,
      promotion = None, flags = ''n'', san = ''Ke8''\<rparr>,
     \<lparr>mcolor = White, from_sq = (1, 5), to_sq = (2, 4), piece = King, captured = None,
      promotion = None, flags = ''n'', san = ''Ke6''\<rparr>,
     \<lparr>mcolor = White, from_sq = (1, 5), to_sq = (1, 4), piece = King, captured = None,
      promotion = None, flags = ''n'', san = ''Ke7''\<rparr>,
     mate_move, capture_move]"
  by code_simp

lemma mate_sorted:
  "sort_moves (game_moves chess mate_position) =
    [capture_move, mate_move,
     \<lparr>mcolor = White, from_sq = (1, 5), to_sq = (0, 4), piece = King, captured = None,
      promotion = None, flags = ''n'', san = ''Ke8''\<rparr>,
     \<lparr>mcolor = White, from_sq = (1, 5), to_sq = (2, 4), piece = King, captured = None,
      promotion = None, flags = ''n'', san = ''Ke6''\<rparr>,
     \<lparr>mcolor = White, from_sq = (1, 5), to_sq = (1, 4), piece = King, captured = None,
      promotion = None, flags = ''n'', san = ''Ke7''\<rparr>]"
  unfolding mate_moves by code_simp

lemma mate_not_over: "\<not> game_isGameOver chess mate_position"
  by code_simp

lemma mate_turn: "game_turn chess mate_position = White"
  by code_simp

lemma mate_depth2:
  "minimax chess mate_position 2 NegInf PosInf True =
    Some (\<lparr>bestMove = Some capture_move, bestScore = Fin 50\<rparr>, mate_position)"
  by code_simp

lemma mate_depth3:
  "minimax chess mate_position 3 NegInf PosInf True =
    Some (\<lparr>bestMove = Some capture_move, bestScore = Fin 50\<rparr>, mate_position)"
  by code_simp

lemma mate_played: "game_move chess mate_position mate_move = Some mated_position"
  by code_simp

lemma mated_in_check: "in_check (pos_board mated_position) Black"
  by code_simp

lemma mated_no_moves: "game_moves chess mated_position = []"
  by code_simp

lemma mated_over: "game_isGameOver chess mated_position"
  by code_simp

lemma mated_eval: "evaluateBoard (game_board chess mated_position) = Some (- 95)"
  by code_simp

lemma kings_moves_hd:
  "game_moves chess kings_position \<noteq> [] \<and>
   game_moves chess kings_position ! 0 =
     \<lparr>mcolor = White, from_sq = (5, 4), to_sq = (4, 3), piece = King, captured = None,
      promotion = None, flags = ''n'', san = ''Kd4''\<rparr>"
  by code_simp

lemma kings_over: "game_isGameOver chess kings_position"
  by code_simp

lemma kings_eval: "evaluateBoard (game_board chess kings_position) = Some 0"
  by code_simp

lemma kings_turn: "game_turn chess kings_position = White"
  by code_simp

lemma moves_differ: "capture_move \<noteq> mate_move"
  by (simp add: capture_move_def mate_move_def)

lemma king_moved_loop:
  "min_loop chess king_moved_position 0 NegInf PosInf
     (sort_moves (game_moves chess king_moved_position)) PosInf None =
   Some (\<lparr>bestMove = Some check_move, bestScore = Fin (- 170)\<rparr>, king_moved_position)"
  by code_simp

lemma mate_loop:
  "max_loop chess mate_position 1 NegInf PosInf
     (sort_moves (game_moves chess mate_position)) NegInf None =
   Some (\<lparr>bestMove = Some capture_move, bestScore = Fin 50\<rparr>, mate_position)"
  using mate_depth2 mate_not_over by (simp add: minimax_node)

lemma mate_member: "mate_move \<in> set (game_moves chess mate_position)"
  by code_simp

lemma captured_played: "game_move chess mate_position capture_move = Some captured_position"
  by code_simp

lemma mate_mating: "mating_moves mate_position = [mate_move]"
  by code_simp

lemma stale_over: "game_isGameOver chess stale_position"
  by code_simp

lemma stale_eval: "evaluateBoard (game_board chess stale_position) = Some (- 110)"
  by code_simp

lemma stale_moves: "game_moves chess stale_position = game_moves chess mate_position"
  by (simp add: chess_def stale_position_def mate_position_def start_from_def start_with_clock_def)

lemma stale_turn: "game_turn chess stale_position = White"
  by code_simp

lemma stale_alike:
  "pos_board stale_position = pos_board mate_position
   \<and> pos_turn stale_position = pos_turn mate_position
   \<and> pos_history stale_position = pos_history mate_position"
  by (simp add: stale_position_def mate_position_def start_from_def start_with_clock_def)

lemma replayed_same: "same_position mate_position replayed_position"
  by (simp add: same_position_def replayed_position_def mate_position_def start_from_def
      start_with_clock_def)

lemma replayed_history: "pos_history replayed_position \<noteq> pos_history mate_position"
  by (simp add: replayed_position_def mate_position_def start_from_def start_with_clock_def)

lemma wf_replayed: "wf_board (pos_board replayed_position)"
  by code_simp

lemma wf_threat: "wf_board (pos_board threat_position)"
  by code_simp

lemma threat_turn: "game_turn chess threat_position = White"
  by code_simp

lemma threat_moves_hd: "game_moves chess threat_position \<noteq> []"
  by code_simp

lemma threat_depth2:
  "minimax chess threat_position 2 NegInf PosInf True =
    Some (\<lparr>bestMove = Some pawn_capture_move, bestScore = Fin 275\<rparr>, threat_position)"
  by code_simp

lemma threat_played:
  "game_move chess threat_position pawn_capture_move = Some pawn_captured_position"
  by code_simp

lemma threat_mating: "mating_moves pawn_captured_position = [smother_move]"
  by code_simp

lemma smother_played:
  "game_move chess pawn_captured_position smother_move = Some smothered_position"
  by code_simp

lemma smothered_in_check: "in_check (pos_board smothered_position) White"
  by code_simp

lemma smothered_no_moves: "game_moves chess smothered_position = []"
  by code_simp

lemma luft_played: "game_move chess threat_position luft_move = Some luft_position"
  by code_simp

lemma luft_mating: "mating_moves luft_position = []"
  by code_simp

lemma moves_differ_king: "capture_move \<noteq> king_move"
  by (simp add: capture_move_def king_move_def)

lemma threat_not_over: "\<not> game_isGameOver chess threat_position"
  by code_simp

lemma threat_member: "pawn_capture_move \<in> set (game_moves chess threat_position)"
  by code_simp

lemma pawn_captured_not_over: "\<not> game_isGameOver chess pawn_captured_position"
  by code_simp

lemma smother_member: "smother_move \<in> set (game_moves chess pawn_captured_position)"
  by code_simp

lemma smothered_over: "game_isGameOver chess smothered_position"
  by code_simp

lemma smothered_eval: "evaluateBoard (game_board chess smothered_position) = Some 355"
  by code_simp
section \<open>Properties of the move ordering\<close>

text \<open>
  Claim C6. The move-ordering score of a move is the sum of four terms: for a capture,
  10000 plus ten times the value of the captured piece minus the value of the moving
  piece; for a promotion, 9000 when the promotion piece is a queen and 4000 otherwise;
  2000 when the notation contains \<^verbatim>\<open>+\<close> or \<^verbatim>\<open>#\<close>; 500 when the flags contain
  \<^verbatim>\<open>k\<close> or \<^verbatim>\<open>q\<close>. Consequently a pawn capturing a queen scores strictly higher than
  a queen capturing a pawn (a queen move carries no promotion field).
\<close>

theorem getMoveScore_sum:
  "getMoveScore m =
      (case captured m of
         Some v \<Rightarrow> 10000 + 10 * PIECE_VALUES v - PIECE_VALUES (piece m)
       | None \<Rightarrow> 0)
    + (case promotion m of
         Some pr \<Rightarrow> if pr = Queen then 9000 else 4000
       | None \<Rightarrow> 0)
    + (if CHR ''+'' \<in> set (san m) \<or> CHR ''#'' \<in> set (san m) then 2000 else 0)
    + (if CHR ''k'' \<in> set (flags m) \<or> CHR ''q'' \<in> set (flags m) then 500 else 0)
   \<and> (piece m1 = Pawn \<and> captured m1 = Some Queen \<and>
      piece m2 = Queen \<and> captured m2 = Some Pawn \<and> promotion m2 = None
      \<longrightarrow> getMoveScore m2 < getMoveScore m1)"
proof (intro conjI impI)
  show "getMoveScore m =
      (case captured m of
         Some v \<Rightarrow> 10000 + 10 * PIECE_VALUES v - PIECE_VALUES (piece m)
       | None \<Rightarrow> 0)
    + (case promotion m of
         Some pr \<Rightarrow> if pr = Queen then 9000 else 4000
       | None \<Rightarrow> 0)
    + (if CHR ''+'' \<in> set (san m) \<or> CHR ''#'' \<in> set (san m) then 2000 else 0)
    + (if CHR ''k'' \<in> set (flags m) \<or> CHR ''q'' \<in> set (flags m) then 500 else 0)"
    by (cases "captured m"; cases "promotion m")
       (simp_all add: getMoveScore_def str_includes_def)
next
  assume h: "piece m1 = Pawn \<and> captured m1 = Some Queen \<and>
      piece m2 = Queen \<and> captured m2 = Some Pawn \<and> promotion m2 = None"
  then have "getMoveScore m2 \<le> 12600"
    by (simp add: getMoveScore_def str_includes_def)
  moreover from h have "18900 \<le> getMoveScore m1"
    by (cases "promotion m1") (simp_all add: getMoveScore_def str_includes_def)
  ultimately show "getMoveScore m2 < getMoveScore m1" by linarith
qed

text \<open>The two moves of the comment in the source: 18900 against 10100.\<close>

theorem getMoveScore_sum_witness:
  "getMoveScore
     \<lparr>mcolor = White, from_sq = (3, 4), to_sq = (2, 3), piece = Queen,
      captured = Some Pawn, promotion = None, flags = ''c'', san = ''Qxd6''\<rparr> = 10100
   \<and> getMoveScore
     \<lparr>mcolor = White, from_sq = (3, 4), to_sq = (2, 3), piece = Pawn,
      captured = Some Queen, promotion = None, flags = ''c'', san = ''exd6''\<rparr> = 18900
   \<and> (10100 :: int) < 18900"
  using getMoveScore_sum
    [of "\<lparr>mcolor = White, from_sq = (3, 4), to_sq = (2, 3), piece = Queen,
          captured = Some Pawn, promotion = None, flags = ''c'', san = ''Qxd6''\<rparr>"
        "\<lparr>mcolor = White, from_sq = (3, 4), to_sq = (2, 3), piece = Pawn,
          captured = Some Queen, promotion = None, flags = ''c'', san = ''exd6''\<rparr>"
        "\<lparr>mcolor = White, from_sq = (3, 4), to_sq = (2, 3), piece = Queen,
          captured = Some Pawn, promotion = None, flags = ''c'', san = ''Qxd6''\<rparr>"]
  by (simp add: getMoveScore_def str_includes_def)

section \<open>Claims about the evaluator\<close>

text \<open>
  Claim C5, as amended. The king-safety term is computed only when the king sits on
  its own back rank, which is rank 1 (row 7 of the board view) for White and rank 8
  (row 0) for Black. For each of the three files from the king's file minus one to
  the king's file plus one, the square one row toward the centre contributes 20 if
  it holds a friendly pawn and -25 if it is empty; files off the board are skipped.
  The reads succeed on every well-formed board. \<^verbatim>\<open>evaluateBoard\<close> adds the term
  of the white king and subtracts the term of the black king, each taken at the
  square of the king when the colour has one king.
\<close>

theorem king_safety_back_rank:
  assumes "wf_board b"
  shows "evaluateKingSafety b r c isWhite = Some (spec_king_safety b r c isWhite)
    \<and> (\<exists>t tot wk bk. first_pass b [0 .. 7] init_trackers = Some t
          \<and> second_pass b t [0 .. 7] (totalEvaluation t) = Some tot
          \<and> whiteKingSafety b t = Some wk \<and> blackKingSafety b t = Some bk
          \<and> evaluateBoard b =
              Some (tot
                    + (if whiteBishopCount t \<ge> 2 then 50 else 0)
                    - (if blackBishopCount t \<ge> 2 then 50 else 0)
                    + wk - bk)
          \<and> (king_squares b White = [(wr, wc)] \<longrightarrow> wk = spec_king_safety b wr wc True)
          \<and> (king_squares b Black = [(br, bc)] \<longrightarrow> bk = spec_king_safety b br bc False))"
proof
  show "evaluateKingSafety b r c isWhite = Some (spec_king_safety b r c isWhite)"
    by (rule evaluateKingSafety_spec [OF assms])
next
  from evaluateBoard_parts [OF assms] obtain t tot where
    t: "first_pass b [0 .. 7] init_trackers = Some t"
    and tot: "second_pass b t [0 .. 7] (totalEvaluation t) = Some tot"
    and ev: "evaluateBoard b =
        Some (tot
              + (if whiteBishopCount t \<ge> 2 then 50 else 0)
              - (if blackBishopCount t \<ge> 2 then 50 else 0)
              + (if fst (whiteKingPos t) \<noteq> - 1
                 then spec_king_safety b (fst (whiteKingPos t)) (snd (whiteKingPos t)) True
                 else 0)
              - (if fst (blackKingPos t) \<noteq> - 1
                 then spec_king_safety b (fst (blackKingPos t)) (snd (blackKingPos t)) False
                 else 0))"
    by blast
  define wk where "wk = (if fst (whiteKingPos t) \<noteq> - 1
                 then spec_king_safety b (fst (whiteKingPos t)) (snd (whiteKingPos t)) True
                 else 0)"
  define bk where "bk = (if fst (blackKingPos t) \<noteq> - 1
                 then spec_king_safety b (fst (blackKingPos t)) (snd (blackKingPos t)) False
                 else 0)"
  have w: "whiteKingSafety b t = Some wk"
    by (simp add: whiteKingSafety_def wk_def evaluateKingSafety_spec [OF assms])
  have k: "blackKingSafety b t = Some bk"
    by (simp add: blackKingSafety_def bk_def evaluateKingSafety_spec [OF assms])
  have ww: "king_squares b White = [(wr, wc)] \<longrightarrow> wk = spec_king_safety b wr wc True"
  proof
    assume u: "king_squares b White = [(wr, wc)]"
    from king_recorded [OF assms u] t have "whiteKingPos t = (wr, wc)" by simp
    moreover from king_squares_valid [OF u] have "wr \<noteq> - 1" by (simp add: isValidSquare_def)
    ultimately show "wk = spec_king_safety b wr wc True" by (simp add: wk_def)
  qed
  have bb: "king_squares b Black = [(br, bc)] \<longrightarrow> bk = spec_king_safety b br bc False"
  proof
    assume u: "king_squares b Black = [(br, bc)]"
    from king_recorded [OF assms u] t have "blackKingPos t = (br, bc)" by simp
    moreover from king_squares_valid [OF u] have "br \<noteq> - 1" by (simp add: isValidSquare_def)
    ultimately show "bk = spec_king_safety b br bc False" by (simp add: bk_def)
  qed
  from ev have "evaluateBoard b =
              Some (tot
                    + (if whiteBishopCount t \<ge> 2 then 50 else 0)
                    - (if blackBishopCount t \<ge> 2 then 50 else 0)
                    + wk - bk)"
    by (simp add: wk_def bk_def)
  with t tot w k ww bb
  show "\<exists>t tot wk bk. first_pass b [0 .. 7] init_trackers = Some t
          \<and> second_pass b t [0 .. 7] (totalEvaluation t) = Some tot
          \<and> whiteKingSafety b t = Some wk \<and> blackKingSafety b t = Some bk
          \<and> evaluateBoard b =
              Some (tot
                    + (if whiteBishopCount t \<ge> 2 then 50 else 0)
                    - (if blackBishopCount t \<ge> 2 then 50 else 0)
                    + wk - bk)
          \<and> (king_squares b White = [(wr, wc)] \<longrightarrow> wk = spec_king_safety b wr wc True)
          \<and> (king_squares b Black = [(br, bc)] \<longrightarrow> bk = spec_king_safety b br bc False)"
    by blast
qed

text \<open>
  On the board with the two kings at home, each king has three empty shield squares:
  both terms are -75 and cancel in the evaluation.
\<close>

theorem king_safety_back_rank_witness:
  "wf_board home_kings_board
   \<and> king_squares home_kings_board White = [(7, 4)] \<and> rank_of_row 7 = 1
   \<and> king_squares home_kings_board Black = [(0, 4)] \<and> rank_of_row 0 = 8
   \<and> evaluateKingSafety home_kings_board 7 4 True = Some (- 75)
   \<and> evaluateKingSafety home_kings_board 0 4 False = Some (- 75)
   \<and> (\<exists>t. first_pass home_kings_board [0 .. 7] init_trackers = Some t
         \<and> whiteKingSafety home_kings_board t = Some (- 75)
         \<and> blackKingSafety home_kings_board t = Some (- 75))
   \<and> evaluateBoard home_kings_board = Some 0"
proof -
  have wf: "wf_board home_kings_board" by code_simp
  have kw: "king_squares home_kings_board White = [(7, 4)]" by code_simp
  have kb: "king_squares home_kings_board Black = [(0, 4)]" by code_simp
  have w: "spec_king_safety home_kings_board 7 4 True = - 75" by code_simp
  have b: "spec_king_safety home_kings_board 0 4 False = - 75" by code_simp
  have e: "evaluateBoard home_kings_board = Some 0" by code_simp
  note th = king_safety_back_rank [OF wf, where wr = 7 and wc = 4 and br = 0 and bc = 4]
  from th [of 7 4 True] w
  have "evaluateKingSafety home_kings_board 7 4 True = Some (- 75)" by simp
  moreover from th [of 0 4 False] b
  have "evaluateKingSafety home_kings_board 0 4 False = Some (- 75)" by simp
  moreover from th [of 0 0 True] kw kb w b
  have "\<exists>t. first_pass home_kings_board [0 .. 7] init_trackers = Some t
         \<and> whiteKingSafety home_kings_board t = Some (- 75)
         \<and> blackKingSafety home_kings_board t = Some (- 75)"
    by auto
  ultimately show ?thesis using wf kw kb e by (simp add: rank_of_row_def)
qed

text \<open>
  Claim C5 as stated names rank 8 for White. A white king on e8 (row 0, rank 8) with
  three empty squares in front of it would get -75 by the claim; the source gives it
  no king-safety term. A white king on e1 (row 7, rank 1), for which the claim has no
  term, gets -75.
\<close>

theorem king_safety_rank_counterexample:
  "rank_of_row 0 = 8
   \<and> cell far_kings_board 0 4 = Some (Some \<lparr>type = King, color = White\<rparr>)
   \<and> shield_term far_kings_board 1 True 3 + shield_term far_kings_board 1 True 4
       + shield_term far_kings_board 1 True 5 = - 75
   \<and> evaluateKingSafety far_kings_board 0 4 True = Some 0
   \<and> rank_of_row 7 = 1
   \<and> cell home_kings_board 7 4 = Some (Some \<lparr>type = King, color = White\<rparr>)
   \<and> evaluateKingSafety home_kings_board 7 4 True = Some (- 75)"
  by code_simp



text \<open>
  Claim C10. \<^verbatim>\<open>evaluateBoard\<close> returns a score on every board of eight rows of
  eight cells without a read outside the board, also when a king is missing: if a
  colour has no king, its recorded king position stays at the sentinel (-1, -1) and
  its king-safety contribution is 0. The two arrays of pawn counts keep their eight
  entries.
\<close>

theorem evaluateBoard_total:
  assumes "wf_board b"
  shows "\<exists>t v. first_pass b [0 .. 7] init_trackers = Some t \<and> evaluateBoard b = Some v
    \<and> (\<not> has_king b White \<longrightarrow> whiteKingPos t = (- 1, - 1) \<and> whiteKingSafety b t = Some 0)
    \<and> (\<not> has_king b Black \<longrightarrow> blackKingPos t = (- 1, - 1) \<and> blackKingSafety b t = Some 0)
    \<and> length (whitePawnsPerFile t) = 8 \<and> length (blackPawnsPerFile t) = 8"
proof -
  obtain t where t: "first_pass b [0 .. 7] init_trackers = Some t" and inv: "no_king_inv b t"
    using first_pass_no_king_inv [OF assms] by blast
  obtain t2 tot where "first_pass b [0 .. 7] init_trackers = Some t2"
    and "\<exists>v. evaluateBoard b = Some v"
    using evaluateBoard_parts [OF assms] by blast
  moreover from inv have "\<not> has_king b White \<longrightarrow> whiteKingPos t = (- 1, - 1) \<and> whiteKingSafety b t = Some 0"
    by (simp add: no_king_inv_def whiteKingSafety_def)
  moreover from inv have "\<not> has_king b Black \<longrightarrow> blackKingPos t = (- 1, - 1) \<and> blackKingSafety b t = Some 0"
    by (simp add: no_king_inv_def blackKingSafety_def)
  moreover from inv have "length (whitePawnsPerFile t) = 8 \<and> length (blackPawnsPerFile t) = 8"
    by (simp add: no_king_inv_def)
  ultimately show ?thesis using t by blast
qed

text \<open>A white king and rook without a black king: the evaluation is 20500.\<close>

theorem evaluateBoard_total_witness:
  "wf_board lone_king_board \<and> \<not> has_king lone_king_board Black
   \<and> (\<exists>t. first_pass lone_king_board [0 .. 7] init_trackers = Some t
         \<and> blackKingPos t = (- 1, - 1) \<and> blackKingSafety lone_king_board t = Some 0)
   \<and> evaluateBoard lone_king_board = Some 20500"
proof -
  have wf: "wf_board lone_king_board" by code_simp
  have nk: "\<not> has_king lone_king_board Black" by code_simp
  have e: "evaluateBoard lone_king_board = Some 20500" by code_simp
  from evaluateBoard_total [OF wf] nk
  have "\<exists>t. first_pass lone_king_board [0 .. 7] init_trackers = Some t
         \<and> blackKingPos t = (- 1, - 1) \<and> blackKingSafety lone_king_board t = Some 0"
    by blast
  with wf nk e show ?thesis by simp
qed

section \<open>Claims about the searcher\<close>

text \<open>
  Claim C1. For every position and every depth, the score returned by the alpha-beta
  search with the window from \<^verbatim>\<open>-Infinity\<close> to \<^verbatim>\<open>Infinity\<close> equals the score of the
  exhaustive minimax without pruning of the same depth, over the same move generator
  and evaluator (for a rules engine that accepts and undoes the moves it generates).
\<close>

theorem alpha_beta_exact:
  assumes "rules_ok E I" and "I g"
  shows "\<exists>res. minimax E g d NegInf PosInf mx = Some (res, g)
    \<and> spec_minimax E d mx g = Some (bestScore res)"
proof -
  from minimax_exact [OF assms, of d mx] obtain v where v: "spec_minimax E d mx g = Some v"
    and w: "\<forall>a b. a < b \<longrightarrow>
       (\<exists>res. minimax E g d a b mx = Some (res, g) \<and> within_window a b v (bestScore res))"
    by blast
  from w NegInf_less_PosInf obtain res where r: "minimax E g d NegInf PosInf mx = Some (res, g)"
    and ww: "within_window NegInf PosInf v (bestScore res)" by blast
  from window_all [OF ww] v r show ?thesis by simp
qed

text \<open>
  In the mate position at depth 2 both searches give 50.
\<close>

theorem alpha_beta_exact_witness:
  "rules_ok chess (\<lambda>g. wf_board (pos_board g)) \<and> wf_board (pos_board mate_position)
   \<and> minimax chess mate_position 2 NegInf PosInf True =
       Some (\<lparr>bestMove = Some capture_move, bestScore = Fin 50\<rparr>, mate_position)
   \<and> spec_minimax chess 2 True mate_position = Some (Fin 50)"
proof -
  from alpha_beta_exact [where E = chess and I = "\<lambda>g. wf_board (pos_board g)"
      and g = mate_position and d = 2 and mx = True, OF chess_rules_ok wf_mate]
  have "spec_minimax chess 2 True mate_position = Some (Fin 50)"
    by (simp add: mate_depth2)
  with chess_rules_ok wf_mate mate_depth2 show ?thesis by simp
qed

text \<open>
  Claim C2. For every position, every call of \<^verbatim>\<open>minimax\<close> (any depth, window and
  side) and every call of \<^verbatim>\<open>getBestMove\<close> returns with the handle in the state it
  was given: every move applied is undone on every path, the cut-offs included, so
  board, turn and history are unchanged.
\<close>

theorem search_restores_position:
  assumes "rules_ok E I" and "I g" and "0 \<le> random" and "random < 1"
  shows "(\<exists>res. minimax E g d a b mx = Some (res, g))
    \<and> (\<exists>mv. getBestMove E random g difficulty = Some (mv, g))"
proof
  from minimax_returns [OF assms(1,2)] show "\<exists>res. minimax E g d a b mx = Some (res, g)"
    by blast
next
  show "\<exists>mv. getBestMove E random g difficulty = Some (mv, g)"
  proof (cases "game_moves E g = []")
    case True
    then show ?thesis by (simp add: getBestMove_empty)
  next
    case False
    show ?thesis
    proof (cases "difficulty = Easy")
      case True
      with False assms(3,4) show ?thesis by (simp add: getBestMove_easy)
    next
      case ne: False
      from minimax_returns [OF assms(1,2)] obtain res where
        "minimax E g (if difficulty = Medium then 2 else 3) NegInf PosInf
           (game_turn E g = White) = Some (res, g)" by blast
      from getBestMove_search [OF False ne this] show ?thesis by blast
    qed
  qed
qed

text \<open>
  The mate position, searched at depth 3 with a narrow window and by the Hard tier.
\<close>

theorem search_restores_position_witness:
  "rules_ok chess (\<lambda>g. wf_board (pos_board g)) \<and> wf_board (pos_board mate_position)
   \<and> (0 :: real) \<le> 0 \<and> (0 :: real) < 1
   \<and> (\<exists>res. minimax chess mate_position 3 (Fin 0) (Fin 10) False = Some (res, mate_position))
   \<and> (\<exists>mv. getBestMove chess 0 mate_position Hard = Some (mv, mate_position))"
proof -
  from search_restores_position [where E = chess and I = "\<lambda>g. wf_board (pos_board g)"
      and g = mate_position and random = 0 and d = 3 and a = "Fin 0" and b = "Fin 10"
      and mx = False and difficulty = Hard, OF chess_rules_ok wf_mate]
  have "(\<exists>res. minimax chess mate_position 3 (Fin 0) (Fin 10) False = Some (res, mate_position))
   \<and> (\<exists>mv. getBestMove chess 0 mate_position Hard = Some (mv, mate_position))"
    by simp
  with chess_rules_ok wf_mate show ?thesis by simp
qed

text \<open>
  Claim C3, as amended. The search has no notion of checkmate: a position where the
  game is over, a checkmate included, is a leaf at every depth, where \<^verbatim>\<open>minimax\<close>
  returns no move and the static evaluation of the board; and the evaluator has no
  term for check or mate. At a position where the game is not over, every legal move
  has a value, the exhaustive minimax value of the position it leads to, which
  is the static evaluation of that position when the move ends the game. The score
  of the search from the root window is at least the value of every legal move for
  the maximizer and at most that value for the minimizer, and the move that the
  search selects has exactly that score as its value. A mating move is therefore
  selected only if the static evaluation of the mated position is the best value
  among all legal moves. A move that allows a reply ending the game, a mate
  included, has for the maximizer a value at most the static evaluation of the
  position after that reply (at least, for the minimizer), and is avoided only if
  another move has a better value. At Medium (depth 2) and Hard (depth 3)
  \<^verbatim>\<open>getBestMove\<close> returns the move selected by this search.
\<close>

theorem selected_move_value:
  assumes "rules_ok E I" and "I g" and "\<not> game_isGameOver E g"
  shows "\<exists>res. minimax E g (Suc d) NegInf PosInf mx = Some (res, g)
    \<and> (\<forall>m \<in> set (game_moves E g). \<exists>g1 x. game_move E g m = Some g1
          \<and> spec_minimax E d (\<not> mx) g1 = Some x
          \<and> (if mx then x \<le> bestScore res else bestScore res \<le> x)
          \<and> (bestMove res = Some m \<longrightarrow> x = bestScore res)
          \<and> (game_isGameOver E g1 \<longrightarrow>
               (\<exists>v. evaluateBoard (game_board E g1) = Some v \<and> x = Fin v
                  \<and> minimax E g1 d a b (\<not> mx) =
                      Some (\<lparr>bestMove = None, bestScore = Fin v\<rparr>, g1)))
          \<and> (\<forall>m2 g2. d \<noteq> 0 \<and> \<not> game_isGameOver E g1 \<and> m2 \<in> set (game_moves E g1)
                 \<and> game_move E g1 m2 = Some g2 \<and> game_isGameOver E g2 \<longrightarrow>
               (\<exists>v. evaluateBoard (game_board E g2) = Some v
                  \<and> (if mx then x \<le> Fin v else Fin v \<le> x))))
    \<and> (\<forall>m. bestMove res = Some m \<longrightarrow> m \<in> set (game_moves E g))
    \<and> (difficulty \<noteq> Easy \<and> Suc d = (if difficulty = Medium then 2 else 3)
          \<and> mx = (game_turn E g = White) \<and> game_moves E g \<noteq> [] \<longrightarrow>
        getBestMove E random g difficulty =
          Some (case bestMove res of Some m \<Rightarrow> Some m | None \<Rightarrow> Some (game_moves E g ! 0), g))"
proof -
  from root_selects [OF assms(1,2), of d mx] obtain res
    where res: "minimax E g (Suc d) NegInf PosInf mx = Some (res, g)"
      and val: "spec_minimax E (Suc d) mx g = Some (bestScore res)"
      and sel: "\<forall>m. bestMove res = Some m \<longrightarrow> m \<in> set (game_moves E g)
         \<and> (\<exists>g1. game_move E g m = Some g1
              \<and> spec_minimax E d (\<not> mx) g1 = Some (bestScore res))"
    by blast
  have lines: "\<forall>m \<in> set (game_moves E g). \<exists>g1 x. game_move E g m = Some g1
          \<and> spec_minimax E d (\<not> mx) g1 = Some x
          \<and> (if mx then x \<le> bestScore res else bestScore res \<le> x)
          \<and> (bestMove res = Some m \<longrightarrow> x = bestScore res)
          \<and> (game_isGameOver E g1 \<longrightarrow>
               (\<exists>v. evaluateBoard (game_board E g1) = Some v \<and> x = Fin v
                  \<and> minimax E g1 d a b (\<not> mx) =
                      Some (\<lparr>bestMove = None, bestScore = Fin v\<rparr>, g1)))
          \<and> (\<forall>m2 g2. d \<noteq> 0 \<and> \<not> game_isGameOver E g1 \<and> m2 \<in> set (game_moves E g1)
                 \<and> game_move E g1 m2 = Some g2 \<and> game_isGameOver E g2 \<longrightarrow>
               (\<exists>v. evaluateBoard (game_board E g2) = Some v
                  \<and> (if mx then x \<le> Fin v else Fin v \<le> x)))"
  proof
    fix m assume m: "m \<in> set (game_moves E g)"
    with assms(1,2) obtain g1 where g1: "game_move E g m = Some g1" and i1: "I g1"
      unfolding rules_ok_def by blast
    from minimax_exact [OF assms(1) i1, of d "\<not> mx"] obtain x
      where x: "spec_minimax E d (\<not> mx) g1 = Some x" by blast
    from spec_minimax_child [OF val assms(3) m g1 x]
    have bound: "if mx then x \<le> bestScore res else bestScore res \<le> x" .
    have chosen: "bestMove res = Some m \<longrightarrow> x = bestScore res"
    proof
      assume "bestMove res = Some m"
      with sel obtain g2 where "game_move E g m = Some g2"
        and "spec_minimax E d (\<not> mx) g2 = Some (bestScore res)" by blast
      with g1 x show "x = bestScore res" by simp
    qed
    have leaf: "game_isGameOver E g1 \<longrightarrow>
               (\<exists>v. evaluateBoard (game_board E g1) = Some v \<and> x = Fin v
                  \<and> minimax E g1 d a b (\<not> mx) =
                      Some (\<lparr>bestMove = None, bestScore = Fin v\<rparr>, g1))"
    proof
      assume over: "game_isGameOver E g1"
      from assms(1) i1 have "wf_board (game_board E g1)"
        unfolding rules_ok_def by blast
      then obtain v where v: "evaluateBoard (game_board E g1) = Some v"
        using evaluateBoard_Some by blast
      from over v have "spec_minimax E d (\<not> mx) g1 = Some (Fin v)"
        by (cases d) simp_all
      with x have "x = Fin v" by simp
      moreover from over v have "minimax E g1 d a b (\<not> mx) =
          Some (\<lparr>bestMove = None, bestScore = Fin v\<rparr>, g1)"
        by (simp add: minimax_leaf)
      ultimately show "\<exists>v. evaluateBoard (game_board E g1) = Some v \<and> x = Fin v
                  \<and> minimax E g1 d a b (\<not> mx) =
                      Some (\<lparr>bestMove = None, bestScore = Fin v\<rparr>, g1)"
        using v by blast
    qed
    have reply: "\<forall>m2 g2. d \<noteq> 0 \<and> \<not> game_isGameOver E g1 \<and> m2 \<in> set (game_moves E g1)
                 \<and> game_move E g1 m2 = Some g2 \<and> game_isGameOver E g2 \<longrightarrow>
               (\<exists>v. evaluateBoard (game_board E g2) = Some v
                  \<and> (if mx then x \<le> Fin v else Fin v \<le> x))"
    proof (intro allI impI)
      fix m2 g2
      assume h: "d \<noteq> 0 \<and> \<not> game_isGameOver E g1 \<and> m2 \<in> set (game_moves E g1)
                 \<and> game_move E g1 m2 = Some g2 \<and> game_isGameOver E g2"
      then obtain d' where d: "d = Suc d'" by (cases d) simp_all
      from h have n1: "\<not> game_isGameOver E g1" and m2: "m2 \<in> set (game_moves E g1)"
        and g2: "game_move E g1 m2 = Some g2" and over: "game_isGameOver E g2" by simp_all
      from assms(1) i1 m2 obtain g2' where "game_move E g1 m2 = Some g2'" and "I g2'"
        unfolding rules_ok_def by blast
      with g2 have "I g2" by simp
      with assms(1) have "wf_board (game_board E g2)"
        unfolding rules_ok_def by blast
      then obtain v where v: "evaluateBoard (game_board E g2) = Some v"
        using evaluateBoard_Some by blast
      from over v have y: "spec_minimax E d' (\<not> \<not> mx) g2 = Some (Fin v)"
        by (cases d') simp_all
      from x d have x': "spec_minimax E (Suc d') (\<not> mx) g1 = Some x" by simp
      from spec_minimax_child [OF x' n1 m2 g2 y]
      have "if mx then x \<le> Fin v else Fin v \<le> x" by (cases mx) simp_all
      with v show "\<exists>v. evaluateBoard (game_board E g2) = Some v
                  \<and> (if mx then x \<le> Fin v else Fin v \<le> x)" by blast
    qed
    from g1 x bound chosen leaf reply
    show "\<exists>g1 x. game_move E g m = Some g1
          \<and> spec_minimax E d (\<not> mx) g1 = Some x
          \<and> (if mx then x \<le> bestScore res else bestScore res \<le> x)
          \<and> (bestMove res = Some m \<longrightarrow> x = bestScore res)
          \<and> (game_isGameOver E g1 \<longrightarrow>
               (\<exists>v. evaluateBoard (game_board E g1) = Some v \<and> x = Fin v
                  \<and> minimax E g1 d a b (\<not> mx) =
                      Some (\<lparr>bestMove = None, bestScore = Fin v\<rparr>, g1)))
          \<and> (\<forall>m2 g2. d \<noteq> 0 \<and> \<not> game_isGameOver E g1 \<and> m2 \<in> set (game_moves E g1)
                 \<and> game_move E g1 m2 = Some g2 \<and> game_isGameOver E g2 \<longrightarrow>
               (\<exists>v. evaluateBoard (game_board E g2) = Some v
                  \<and> (if mx then x \<le> Fin v else Fin v \<le> x)))"
      by blast
  qed
  have top: "difficulty \<noteq> Easy \<and> Suc d = (if difficulty = Medium then 2 else 3)
          \<and> mx = (game_turn E g = White) \<and> game_moves E g \<noteq> [] \<longrightarrow>
        getBestMove E random g difficulty =
          Some (case bestMove res of Some m \<Rightarrow> Some m | None \<Rightarrow> Some (game_moves E g ! 0), g)"
  proof
    assume h: "difficulty \<noteq> Easy \<and> Suc d = (if difficulty = Medium then 2 else 3)
          \<and> mx = (game_turn E g = White) \<and> game_moves E g \<noteq> []"
    with res have "minimax E g (if difficulty = Medium then 2 else 3) NegInf PosInf
           (game_turn E g = White) = Some (res, g)" by simp
    with h show "getBestMove E random g difficulty =
          Some (case bestMove res of Some m \<Rightarrow> Some m | None \<Rightarrow> Some (game_moves E g ! 0), g)"
      by (simp add: getBestMove_search)
  qed
  from sel have "\<forall>m. bestMove res = Some m \<longrightarrow> m \<in> set (game_moves E g)" by blast
  with res lines top show ?thesis by blast
qed

text \<open>
  The first example position at depth 2: the search selects the capture of the
  knight, a move of value 50; the mating pawn move is a legal move that ends the game,
  its value is the static evaluation -95 of the mated position, below 50; and
  \<^verbatim>\<open>getBestMove\<close> returns the capture at Medium. The second example position at
  depth 2: the search selects the capture of the pawn on b5, a move of value 275;
  the knight move to f2 is a legal reply that ends the game, and the static
  evaluation of the position after it is 355, not below 275.
\<close>

theorem selected_move_value_witness:
  "rules_ok chess (\<lambda>g. wf_board (pos_board g)) \<and> wf_board (pos_board mate_position)
   \<and> \<not> game_isGameOver chess mate_position
   \<and> minimax chess mate_position 2 NegInf PosInf True =
       Some (\<lparr>bestMove = Some capture_move, bestScore = Fin 50\<rparr>, mate_position)
   \<and> capture_move \<in> set (game_moves chess mate_position)
   \<and> game_move chess mate_position capture_move = Some captured_position
   \<and> spec_minimax chess 1 False captured_position = Some (Fin 50)
   \<and> mate_move \<in> set (game_moves chess mate_position)
   \<and> game_move chess mate_position mate_move = Some mated_position
   \<and> game_isGameOver chess mated_position
   \<and> evaluateBoard (game_board chess mated_position) = Some (- 95)
   \<and> spec_minimax chess 1 False mated_position = Some (Fin (- 95))
   \<and> minimax chess mated_position 1 NegInf PosInf False =
       Some (\<lparr>bestMove = None, bestScore = Fin (- 95)\<rparr>, mated_position)
   \<and> Fin (- 95) \<le> Fin 50
   \<and> Medium \<noteq> Easy \<and> game_moves chess mate_position \<noteq> []
   \<and> getBestMove chess 0 mate_position Medium = Some (Some capture_move, mate_position)
   \<and> wf_board (pos_board threat_position) \<and> \<not> game_isGameOver chess threat_position
   \<and> minimax chess threat_position 2 NegInf PosInf True =
       Some (\<lparr>bestMove = Some pawn_capture_move, bestScore = Fin 275\<rparr>, threat_position)
   \<and> pawn_capture_move \<in> set (game_moves chess threat_position)
   \<and> game_move chess threat_position pawn_capture_move = Some pawn_captured_position
   \<and> spec_minimax chess 1 False pawn_captured_position = Some (Fin 275)
   \<and> (1 :: nat) \<noteq> 0 \<and> \<not> game_isGameOver chess pawn_captured_position
   \<and> smother_move \<in> set (game_moves chess pawn_captured_position)
   \<and> game_move chess pawn_captured_position smother_move = Some smothered_position
   \<and> game_isGameOver chess smothered_position
   \<and> evaluateBoard (game_board chess smothered_position) = Some 355
   \<and> Fin 275 \<le> Fin 355"
proof -
  have two: "Suc 1 = 2" by simp
  have cm: "capture_move \<in> set (game_moves chess mate_position)" by (simp add: mate_moves)
  have ne: "game_moves chess mate_position \<noteq> []" by (simp add: mate_moves)
  have d: "Medium \<noteq> Easy" by simp
  have one: "(1 :: nat) \<noteq> 0" by simp
  from selected_move_value [where E = chess and I = "\<lambda>g. wf_board (pos_board g)"
      and g = mate_position and d = 1 and mx = True and a = NegInf and b = PosInf
      and difficulty = Medium and random = 0, OF chess_rules_ok wf_mate mate_not_over]
  have first: "spec_minimax chess 1 False captured_position = Some (Fin 50)
    \<and> spec_minimax chess 1 False mated_position = Some (Fin (- 95))
    \<and> minimax chess mated_position 1 NegInf PosInf False =
         Some (\<lparr>bestMove = None, bestScore = Fin (- 95)\<rparr>, mated_position)
    \<and> Fin (- 95) \<le> Fin 50
    \<and> getBestMove chess 0 mate_position Medium = Some (Some capture_move, mate_position)"
  proof (elim exE conjE)
    fix res
    assume res: "minimax chess mate_position (Suc 1) NegInf PosInf True =
        Some (res, mate_position)"
      and lines: "\<forall>m \<in> set (game_moves chess mate_position). \<exists>g1 x.
          game_move chess mate_position m = Some g1
          \<and> spec_minimax chess 1 (\<not> True) g1 = Some x
          \<and> (if True then x \<le> bestScore res else bestScore res \<le> x)
          \<and> (bestMove res = Some m \<longrightarrow> x = bestScore res)
          \<and> (game_isGameOver chess g1 \<longrightarrow>
               (\<exists>v. evaluateBoard (game_board chess g1) = Some v \<and> x = Fin v
                  \<and> minimax chess g1 1 NegInf PosInf (\<not> True) =
                      Some (\<lparr>bestMove = None, bestScore = Fin v\<rparr>, g1)))
          \<and> (\<forall>m2 g2. (1 :: nat) \<noteq> 0 \<and> \<not> game_isGameOver chess g1
                 \<and> m2 \<in> set (game_moves chess g1)
                 \<and> game_move chess g1 m2 = Some g2 \<and> game_isGameOver chess g2 \<longrightarrow>
               (\<exists>v. evaluateBoard (game_board chess g2) = Some v
                  \<and> (if True then x \<le> Fin v else Fin v \<le> x)))"
      and top: "Medium \<noteq> Easy \<and> Suc 1 = (if Medium = Medium then 2 else 3)
          \<and> True = (game_turn chess mate_position = White)
          \<and> game_moves chess mate_position \<noteq> [] \<longrightarrow>
        getBestMove chess 0 mate_position Medium =
          Some (case bestMove res of Some m \<Rightarrow> Some m
                | None \<Rightarrow> Some (game_moves chess mate_position ! 0), mate_position)"
    from res mate_depth2
    have r: "res = \<lparr>bestMove = Some capture_move, bestScore = Fin 50\<rparr>"
      by (simp only: two) simp
    from bspec [OF lines cm]
    have c1: "spec_minimax chess 1 False captured_position = Some (Fin 50)"
    proof (elim exE conjE)
      fix g1 x
      assume "game_move chess mate_position capture_move = Some g1"
        and "spec_minimax chess 1 (\<not> True) g1 = Some x"
        and "bestMove res = Some capture_move \<longrightarrow> x = bestScore res"
      with r captured_played show ?thesis by simp
    qed
    from bspec [OF lines mate_member]
    have c2: "spec_minimax chess 1 False mated_position = Some (Fin (- 95))
      \<and> minimax chess mated_position 1 NegInf PosInf False =
           Some (\<lparr>bestMove = None, bestScore = Fin (- 95)\<rparr>, mated_position)
      \<and> Fin (- 95) \<le> Fin 50"
    proof (elim exE conjE)
      fix g2 y
      assume g2: "game_move chess mate_position mate_move = Some g2"
        and y: "spec_minimax chess 1 (\<not> True) g2 = Some y"
        and le: "if True then y \<le> bestScore res else bestScore res \<le> y"
        and leaf: "game_isGameOver chess g2 \<longrightarrow>
               (\<exists>v. evaluateBoard (game_board chess g2) = Some v \<and> y = Fin v
                  \<and> minimax chess g2 1 NegInf PosInf (\<not> True) =
                      Some (\<lparr>bestMove = None, bestScore = Fin v\<rparr>, g2))"
      from g2 mate_played have eq: "g2 = mated_position" by simp
      from leaf mated_over mated_eval have yv: "y = Fin (- 95)"
        and m1: "minimax chess mated_position 1 NegInf PosInf False =
           Some (\<lparr>bestMove = None, bestScore = Fin (- 95)\<rparr>, mated_position)"
        unfolding eq by auto
      from y yv have "spec_minimax chess 1 False mated_position = Some (Fin (- 95))"
        unfolding eq by simp
      moreover from le yv r have "Fin (- 95) \<le> Fin 50" by simp
      ultimately show ?thesis using m1 by simp
    qed
    from top ne r have "getBestMove chess 0 mate_position Medium =
        Some (Some capture_move, mate_position)" by (simp add: mate_turn)
    with c1 c2 show ?thesis by simp
  qed
  from selected_move_value [where E = chess and I = "\<lambda>g. wf_board (pos_board g)"
      and g = threat_position and d = 1 and mx = True and a = NegInf and b = PosInf
      and difficulty = Medium and random = 0, OF chess_rules_ok wf_threat threat_not_over]
  have second: "spec_minimax chess 1 False pawn_captured_position = Some (Fin 275)
    \<and> Fin 275 \<le> Fin 355"
  proof (elim exE conjE)
    fix res
    assume res: "minimax chess threat_position (Suc 1) NegInf PosInf True =
        Some (res, threat_position)"
      and lines: "\<forall>m \<in> set (game_moves chess threat_position). \<exists>g1 x.
          game_move chess threat_position m = Some g1
          \<and> spec_minimax chess 1 (\<not> True) g1 = Some x
          \<and> (if True then x \<le> bestScore res else bestScore res \<le> x)
          \<and> (bestMove res = Some m \<longrightarrow> x = bestScore res)
          \<and> (game_isGameOver chess g1 \<longrightarrow>
               (\<exists>v. evaluateBoard (game_board chess g1) = Some v \<and> x = Fin v
                  \<and> minimax chess g1 1 NegInf PosInf (\<not> True) =
                      Some (\<lparr>bestMove = None, bestScore = Fin v\<rparr>, g1)))
          \<and> (\<forall>m2 g2. (1 :: nat) \<noteq> 0 \<and> \<not> game_isGameOver chess g1
                 \<and> m2 \<in> set (game_moves chess g1)
                 \<and> game_move chess g1 m2 = Some g2 \<and> game_isGameOver chess g2 \<longrightarrow>
               (\<exists>v. evaluateBoard (game_board chess g2) = Some v
                  \<and> (if True then x \<le> Fin v else Fin v \<le> x)))"
    from res threat_depth2
    have r: "res = \<lparr>bestMove = Some pawn_capture_move, bestScore = Fin 275\<rparr>"
      by (simp only: two) simp
    from bspec [OF lines threat_member] show ?thesis
    proof (elim exE conjE)
      fix g3 z
      assume g3: "game_move chess threat_position pawn_capture_move = Some g3"
        and z: "spec_minimax chess 1 (\<not> True) g3 = Some z"
        and zsel: "bestMove res = Some pawn_capture_move \<longrightarrow> z = bestScore res"
        and reply: "\<forall>m2 g2. (1 :: nat) \<noteq> 0 \<and> \<not> game_isGameOver chess g3
                 \<and> m2 \<in> set (game_moves chess g3)
                 \<and> game_move chess g3 m2 = Some g2 \<and> game_isGameOver chess g2 \<longrightarrow>
               (\<exists>v. evaluateBoard (game_board chess g2) = Some v
                  \<and> (if True then z \<le> Fin v else Fin v \<le> z))"
      from g3 threat_played have eq3: "g3 = pawn_captured_position" by simp
      from zsel r have zv: "z = Fin 275" by simp
      from z zv have c5: "spec_minimax chess 1 False pawn_captured_position = Some (Fin 275)"
        unfolding eq3 by simp
      from reply [unfolded eq3, rule_format, of smother_move smothered_position]
        one pawn_captured_not_over smother_member smother_played smothered_over
      have "\<exists>v. evaluateBoard (game_board chess smothered_position) = Some v
                  \<and> (if True then z \<le> Fin v else Fin v \<le> z)" by simp
      with smothered_eval zv have "Fin 275 \<le> Fin 355" by auto
      with c5 show ?thesis by simp
    qed
  qed
  from first have c1: "spec_minimax chess 1 False captured_position = Some (Fin 50)"
    and c2: "spec_minimax chess 1 False mated_position = Some (Fin (- 95))"
    and m1: "minimax chess mated_position 1 NegInf PosInf False =
         Some (\<lparr>bestMove = None, bestScore = Fin (- 95)\<rparr>, mated_position)"
    and c3: "Fin (- 95) \<le> Fin 50"
    and c4: "getBestMove chess 0 mate_position Medium = Some (Some capture_move, mate_position)"
    by simp_all
  from second have c5: "spec_minimax chess 1 False pawn_captured_position = Some (Fin 275)"
    and c6: "Fin 275 \<le> Fin 355" by simp_all
  from chess_rules_ok wf_mate mate_not_over mate_depth2 cm captured_played c1 mate_member
    mate_played mated_over mated_eval c2 m1 c3 d ne c4 wf_threat threat_not_over threat_depth2
    threat_member threat_played c5 one pawn_captured_not_over smother_member smother_played
    smothered_over smothered_eval c6
  show ?thesis by (intro conjI)
qed

text \<open>
  Claim C3 as stated fails in both halves. In the first example position the pawn
  move to g7 is the one legal move that mates (Black is in check and has no legal
  move), and its leaf is scored -95; the search at depth 2 returns the capture of
  the knight with score 50, and \<^verbatim>\<open>getBestMove\<close> selects the capture at Medium and
  at Hard. In the second example position Black threatens mate with the knight on
  f2. White has the pawn move to h3, after which no move of Black mates;
  \<^verbatim>\<open>getBestMove\<close> at Medium selects the capture of the pawn on b5, after which the
  knight move to f2 mates (White is in check and has no legal move).
\<close>

theorem mate_not_preferred_counterexample:
  "mating_moves mate_position = [mate_move]
   \<and> game_move chess mate_position mate_move = Some mated_position
   \<and> in_check (pos_board mated_position) Black
   \<and> game_moves chess mated_position = []
   \<and> minimax chess mated_position 1 NegInf PosInf False =
       Some (\<lparr>bestMove = None, bestScore = Fin (- 95)\<rparr>, mated_position)
   \<and> minimax chess mate_position 2 NegInf PosInf True =
       Some (\<lparr>bestMove = Some capture_move, bestScore = Fin 50\<rparr>, mate_position)
   \<and> getBestMove chess 0 mate_position Medium = Some (Some capture_move, mate_position)
   \<and> getBestMove chess 0 mate_position Hard = Some (Some capture_move, mate_position)
   \<and> capture_move \<noteq> mate_move
   \<and> game_move chess threat_position luft_move = Some luft_position
   \<and> mating_moves luft_position = []
   \<and> getBestMove chess 0 threat_position Medium =
       Some (Some pawn_capture_move, threat_position)
   \<and> game_move chess threat_position pawn_capture_move = Some pawn_captured_position
   \<and> mating_moves pawn_captured_position = [smother_move]
   \<and> game_move chess pawn_captured_position smother_move = Some smothered_position
   \<and> in_check (pos_board smothered_position) White
   \<and> game_moves chess smothered_position = []"
proof -
  have ne: "game_moves chess mate_position \<noteq> []" by (simp add: mate_moves)
  have leaf: "minimax chess mated_position 1 NegInf PosInf False =
       Some (\<lparr>bestMove = None, bestScore = Fin (- 95)\<rparr>, mated_position)"
    using mated_over mated_eval by (simp add: minimax_leaf)
  have medium: "getBestMove chess 0 mate_position Medium =
      Some (Some capture_move, mate_position)"
    using getBestMove_search [of chess mate_position Medium _ _ 0] ne mate_depth2
    by (simp add: mate_turn)
  have hard: "getBestMove chess 0 mate_position Hard = Some (Some capture_move, mate_position)"
    using getBestMove_search [of chess mate_position Hard _ _ 0] ne mate_depth3
    by (simp add: mate_turn)
  have threat: "getBestMove chess 0 threat_position Medium =
      Some (Some pawn_capture_move, threat_position)"
    using getBestMove_search [of chess threat_position Medium _ _ 0] threat_moves_hd
      threat_depth2
    by (simp add: threat_turn)
  from mate_mating mate_played mated_in_check mated_no_moves leaf mate_depth2 medium hard
    moves_differ luft_played luft_mating threat threat_played threat_mating smother_played
    smothered_in_check smothered_no_moves
  show ?thesis by (intro conjI)
qed



text \<open>
  Claim C8, as amended. For every position with at least one legal move in which the
  game is not over, the top-level \<^verbatim>\<open>minimax\<close> call of \<^verbatim>\<open>getBestMove\<close> at Medium or
  Hard returns a best move, which \<^verbatim>\<open>getBestMove\<close> returns (for a rules engine in
  which a position without legal moves is over, as in chess).
\<close>

theorem root_move_found:
  assumes "rules_ok E I" and "no_dead_end E I" and "I g"
    and "game_moves E g \<noteq> []" and "\<not> game_isGameOver E g" and "difficulty \<noteq> Easy"
  shows "\<exists>res m. minimax E g (if difficulty = Medium then 2 else 3) NegInf PosInf
             (game_turn E g = White) = Some (res, g)
    \<and> bestMove res = Some m
    \<and> getBestMove E random g difficulty = Some (Some m, g)"
proof -
  from minimax_finite [OF assms(1,2,3), of "if difficulty = Medium then 2 else 3"
      NegInf PosInf "game_turn E g = White"] assms(5)
  obtain res m where res: "minimax E g (if difficulty = Medium then 2 else 3) NegInf PosInf
             (game_turn E g = White) = Some (res, g)" and m: "bestMove res = Some m"
    by (auto split: if_splits)
  from getBestMove_search [OF assms(4,6) res, of random] m res show ?thesis by simp
qed

text \<open>
  The mate position at Medium.
\<close>

theorem root_move_found_witness:
  "rules_ok chess (\<lambda>g. wf_board (pos_board g)) \<and> no_dead_end chess (\<lambda>g. wf_board (pos_board g))
   \<and> wf_board (pos_board mate_position) \<and> game_moves chess mate_position \<noteq> []
   \<and> \<not> game_isGameOver chess mate_position \<and> Medium \<noteq> Easy
   \<and> minimax chess mate_position 2 NegInf PosInf True =
       Some (\<lparr>bestMove = Some capture_move, bestScore = Fin 50\<rparr>, mate_position)
   \<and> getBestMove chess 0 mate_position Medium = Some (Some capture_move, mate_position)"
proof -
  have ne: "game_moves chess mate_position \<noteq> []" by (simp add: mate_moves)
  have d: "Medium \<noteq> Easy" by simp
  from root_move_found [where E = chess and I = "\<lambda>g. wf_board (pos_board g)"
      and g = mate_position and difficulty = Medium and random = 0,
      OF chess_rules_ok chess_no_dead_end wf_mate ne mate_not_over d]
  have "getBestMove chess 0 mate_position Medium = Some (Some capture_move, mate_position)"
    by (auto simp: mate_turn mate_depth2)
  with chess_rules_ok chess_no_dead_end wf_mate ne mate_not_over mate_depth2 show ?thesis
    by simp
qed

text \<open>
  Claim C8 as stated fails where the game is over although legal moves exist. With
  the two kings alone the game is drawn for insufficient material and the white king
  has eight legal moves: \<^verbatim>\<open>minimax\<close> returns no best move at the root, and
  \<^verbatim>\<open>getBestMove\<close> falls back to the first generated move.
\<close>

theorem root_move_counterexample:
  "rules_ok chess (\<lambda>g. wf_board (pos_board g)) \<and> wf_board (pos_board kings_position)
   \<and> game_moves chess kings_position \<noteq> []
   \<and> game_isGameOver chess kings_position
   \<and> minimax chess kings_position 2 NegInf PosInf (game_turn chess kings_position = White) =
       Some (\<lparr>bestMove = None, bestScore = Fin 0\<rparr>, kings_position)
   \<and> getBestMove chess 0 kings_position Medium =
       Some (Some (game_moves chess kings_position ! 0), kings_position)"
proof -
  have m: "minimax chess kings_position 2 NegInf PosInf (game_turn chess kings_position = White) =
       Some (\<lparr>bestMove = None, bestScore = Fin 0\<rparr>, kings_position)"
    using kings_over kings_eval by (simp add: minimax_leaf)
  have "getBestMove chess 0 kings_position Medium =
       Some (Some (game_moves chess kings_position ! 0), kings_position)"
    using getBestMove_search [of chess kings_position Medium _ _ 0] m kings_moves_hd
    by simp
  with m chess_rules_ok wf_kings kings_moves_hd kings_over show ?thesis by simp
qed

text \<open>
  Claim C9, as amended. At Medium and Hard \<^verbatim>\<open>getBestMove\<close> consults no random
  source: its result is a function of the state of the position handle. Two calls on
  states that the rules engine does not tell apart (the same legal moves in the same
  order, the same game-over answer, side to move and board, now and after every
  sequence of legal moves) return the same move; the board, the side to move and the
  moves made so far are only a part of that state, which holds the halfmove clock
  of the fifty-move rule as well. The move ordering is a stable sort, descending
  in the score: moves of equal score keep the order in which they were generated.
  In both loops a move replaces the best move only with a strictly better score: the
  result of a loop entered with a best move and its score keeps that move unless a
  score strictly better is found.
\<close>

theorem search_deterministic:
  assumes "difficulty \<noteq> Easy"
  shows "getBestMove E random1 g difficulty = getBestMove E random2 g difficulty
    \<and> (rules_ok E I \<and> same_answers E I R \<and> I g \<and> I h \<and> R g h \<longrightarrow>
         (\<exists>mv. getBestMove E random1 g difficulty = Some (mv, g)
            \<and> getBestMove E random2 h difficulty = Some (mv, h)))
    \<and> filter (\<lambda>m. getMoveScore m = k) (sort_moves ms) = filter (\<lambda>m. getMoveScore m = k) ms
    \<and> sorted (map (\<lambda>m. - getMoveScore m) (sort_moves ms))
    \<and> (max_loop E g1 d1 a1 b1 ms1 ev1 best1 = Some (res1, g1') \<longrightarrow>
         ev1 \<le> bestScore res1 \<and> (bestScore res1 = ev1 \<longrightarrow> bestMove res1 = best1))
    \<and> (min_loop E g2 d2 a2 b2 ms2 ev2 best2 = Some (res2, g2') \<longrightarrow>
         bestScore res2 \<le> ev2 \<and> (bestScore res2 = ev2 \<longrightarrow> bestMove res2 = best2))"
proof (intro conjI impI)
  from assms show "getBestMove E random1 g difficulty = getBestMove E random2 g difficulty"
    by (simp add: getBestMove_def Let_def)
  have "filter (\<lambda>m. - getMoveScore m = - k) (sort_key (\<lambda>m. - getMoveScore m) ms) =
      filter (\<lambda>m. - getMoveScore m = - k) ms"
    by (rule sort_key_stable)
  then show "filter (\<lambda>m. getMoveScore m = k) (sort_moves ms) = filter (\<lambda>m. getMoveScore m = k) ms"
    by (simp add: sort_moves_def)
  show "sorted (map (\<lambda>m. - getMoveScore m) (sort_moves ms))"
    by (simp add: sort_moves_def)
next
  assume "rules_ok E I \<and> same_answers E I R \<and> I g \<and> I h \<and> R g h"
  then have "rules_ok E I" and "same_answers E I R" and "I g" and "I h" and "R g h"
    by simp_all
  from getBestMove_same [OF this assms]
  show "\<exists>mv. getBestMove E random1 g difficulty = Some (mv, g)
            \<and> getBestMove E random2 h difficulty = Some (mv, h)" .
next
  assume h: "max_loop E g1 d1 a1 b1 ms1 ev1 best1 = Some (res1, g1')"
  from max_loop_keeps_first [OF h] show "ev1 \<le> bestScore res1" by simp
  from max_loop_keeps_first [OF h] show "bestScore res1 = ev1 \<Longrightarrow> bestMove res1 = best1"
    by simp
next
  assume h: "min_loop E g2 d2 a2 b2 ms2 ev2 best2 = Some (res2, g2')"
  from min_loop_keeps_first [OF h] show "bestScore res2 \<le> ev2" by simp
  from min_loop_keeps_first [OF h] show "bestScore res2 = ev2 \<Longrightarrow> bestMove res2 = best2"
    by simp
qed

text \<open>
  The first example position, and the same position with one earlier state to undo
  to: the example rules engine does not tell them apart, and \<^verbatim>\<open>getBestMove\<close>
  returns the capture of the knight for both, whatever the random number. The
  capture and the mating move come first in the move ordering, the three king moves
  of score 0 follow in the order of generation. The loops at the root of the
  position and after the king move to e8.
\<close>

theorem search_deterministic_witness:
  "Medium \<noteq> Easy
   \<and> getBestMove chess 0 mate_position Medium = getBestMove chess (1 / 2) mate_position Medium
   \<and> rules_ok chess (\<lambda>g. wf_board (pos_board g))
   \<and> same_answers chess (\<lambda>g. wf_board (pos_board g)) same_position
   \<and> wf_board (pos_board mate_position) \<and> wf_board (pos_board replayed_position)
   \<and> same_position mate_position replayed_position
   \<and> pos_history replayed_position \<noteq> pos_history mate_position
   \<and> getBestMove chess 0 mate_position Medium = Some (Some capture_move, mate_position)
   \<and> getBestMove chess (1 / 2) replayed_position Medium =
       Some (Some capture_move, replayed_position)
   \<and> sort_moves (game_moves chess mate_position) =
       [capture_move, mate_move] @ filter (\<lambda>m. getMoveScore m = 0) (game_moves chess mate_position)
   \<and> max_loop chess mate_position 1 NegInf PosInf
         (sort_moves (game_moves chess mate_position)) NegInf None =
       Some (\<lparr>bestMove = Some capture_move, bestScore = Fin 50\<rparr>, mate_position)
   \<and> NegInf \<le> Fin 50
   \<and> min_loop chess king_moved_position 0 NegInf PosInf
         (sort_moves (game_moves chess king_moved_position)) PosInf None =
       Some (\<lparr>bestMove = Some check_move, bestScore = Fin (- 170)\<rparr>, king_moved_position)
   \<and> Fin (- 170) \<le> PosInf"
proof -
  have d: "Medium \<noteq> Easy" by simp
  note th = search_deterministic [where difficulty = Medium and E = chess and g = mate_position
      and ?random1.0 = 0 and ?random2.0 = "1 / 2" and k = 0
      and I = "\<lambda>g. wf_board (pos_board g)" and R = same_position and h = replayed_position
      and ms = "game_moves chess mate_position"
      and ?g1.0 = mate_position and ?d1.0 = 1 and ?a1.0 = NegInf and ?b1.0 = PosInf
      and ?ms1.0 = "sort_moves (game_moves chess mate_position)" and ?ev1.0 = NegInf
      and ?best1.0 = None
      and ?res1.0 = "\<lparr>bestMove = Some capture_move, bestScore = Fin 50\<rparr>"
      and ?g1' = mate_position
      and ?g2.0 = king_moved_position and ?d2.0 = 0 and ?a2.0 = NegInf and ?b2.0 = PosInf
      and ?ms2.0 = "sort_moves (game_moves chess king_moved_position)" and ?ev2.0 = PosInf
      and ?best2.0 = None
      and ?res2.0 = "\<lparr>bestMove = Some check_move, bestScore = Fin (- 170)\<rparr>"
      and ?g2' = king_moved_position, OF d]
  have s: "sort_moves (game_moves chess mate_position) =
       [capture_move, mate_move] @ filter (\<lambda>m. getMoveScore m = 0) (game_moves chess mate_position)"
    unfolding mate_sorted unfolding mate_moves by code_simp
  have same: "same_answers chess (\<lambda>g. wf_board (pos_board g)) same_position"
    by (rule chess_same_answers)
  have ne: "game_moves chess mate_position \<noteq> []" by (simp add: mate_moves)
  have medium: "getBestMove chess 0 mate_position Medium =
      Some (Some capture_move, mate_position)"
    using getBestMove_search [of chess mate_position Medium _ _ 0] ne mate_depth2
    by (simp add: mate_turn)
  from th have c1: "getBestMove chess 0 mate_position Medium =
      getBestMove chess (1 / 2) mate_position Medium" by (rule conjunct1)
  from th have "rules_ok chess (\<lambda>g. wf_board (pos_board g))
      \<and> same_answers chess (\<lambda>g. wf_board (pos_board g)) same_position
      \<and> wf_board (pos_board mate_position) \<and> wf_board (pos_board replayed_position)
      \<and> same_position mate_position replayed_position \<longrightarrow>
         (\<exists>mv. getBestMove chess 0 mate_position Medium = Some (mv, mate_position)
            \<and> getBestMove chess (1 / 2) replayed_position Medium = Some (mv, replayed_position))"
    by blast
  with chess_rules_ok same wf_mate wf_replayed replayed_same obtain mv
    where "getBestMove chess 0 mate_position Medium = Some (mv, mate_position)"
      and "getBestMove chess (1 / 2) replayed_position Medium = Some (mv, replayed_position)"
    by blast
  with medium have c2: "getBestMove chess (1 / 2) replayed_position Medium =
       Some (Some capture_move, replayed_position)" by simp
  from th mate_loop have c3: "NegInf \<le> Fin 50" by simp
  from th king_moved_loop have c4: "Fin (- 170) \<le> PosInf" by simp
  from d c1 chess_rules_ok same wf_mate wf_replayed replayed_same replayed_history medium c2 s
    mate_loop c3 king_moved_loop c4
  show ?thesis by (intro conjI)
qed

text \<open>
  Claim C9 as stated fails for the first example position taken with the halfmove
  clock at 0 and at 100: the same board, the same side to move, no earlier moves and
  the same legal moves. With the clock at 100 the game is over (a draw by the
  fifty-move rule), the search returns no move at the root and \<^verbatim>\<open>getBestMove\<close>
  returns the first generated move, the king move to e8, at Medium and at Hard; with
  the clock at 0 it returns the capture of the knight.
\<close>

theorem same_board_counterexample:
  "pos_board stale_position = pos_board mate_position
   \<and> pos_turn stale_position = pos_turn mate_position
   \<and> pos_history stale_position = pos_history mate_position
   \<and> game_board chess stale_position = game_board chess mate_position
   \<and> game_turn chess stale_position = game_turn chess mate_position
   \<and> game_moves chess stale_position = game_moves chess mate_position
   \<and> getBestMove chess 0 mate_position Medium = Some (Some capture_move, mate_position)
   \<and> getBestMove chess 0 stale_position Medium = Some (Some king_move, stale_position)
   \<and> getBestMove chess 0 mate_position Hard = Some (Some capture_move, mate_position)
   \<and> getBestMove chess 0 stale_position Hard = Some (Some king_move, stale_position)
   \<and> capture_move \<noteq> king_move"
proof -
  have ne: "game_moves chess mate_position \<noteq> []" by (simp add: mate_moves)
  then have nes: "game_moves chess stale_position \<noteq> []" by (simp add: stale_moves)
  have first: "game_moves chess stale_position ! 0 = king_move"
    by (simp add: stale_moves mate_moves king_move_def)
  have leaf: "minimax chess stale_position d NegInf PosInf True =
      Some (\<lparr>bestMove = None, bestScore = Fin (- 110)\<rparr>, stale_position)" for d
    using stale_over stale_eval by (simp add: minimax_leaf)
  have medium: "getBestMove chess 0 mate_position Medium =
      Some (Some capture_move, mate_position)"
    using getBestMove_search [of chess mate_position Medium _ _ 0] ne mate_depth2
    by (simp add: mate_turn)
  have hard: "getBestMove chess 0 mate_position Hard = Some (Some capture_move, mate_position)"
    using getBestMove_search [of chess mate_position Hard _ _ 0] ne mate_depth3
    by (simp add: mate_turn)
  have smedium: "getBestMove chess 0 stale_position Medium =
      Some (Some king_move, stale_position)"
    using getBestMove_search [of chess stale_position Medium _ _ 0] nes leaf [of 2] first
    by (simp add: stale_turn)
  have shard: "getBestMove chess 0 stale_position Hard = Some (Some king_move, stale_position)"
    using getBestMove_search [of chess stale_position Hard _ _ 0] nes leaf [of 3] first
    by (simp add: stale_turn)
  have board: "game_board chess stale_position = game_board chess mate_position"
    and turn: "game_turn chess stale_position = game_turn chess mate_position"
    using stale_alike by (simp_all add: chess_def)
  from stale_alike have a1: "pos_board stale_position = pos_board mate_position"
    and a2: "pos_turn stale_position = pos_turn mate_position"
    and a3: "pos_history stale_position = pos_history mate_position" by simp_all
  from a1 a2 a3 board turn stale_moves medium smedium hard shard moves_differ_king
  show ?thesis by (intro conjI)
qed
end
